theory Spec2Isabelle
  imports Main "HOL-Library.Multiset" "HOL-Library.Char_ord" "HOL-Library.List_Lexorder"
begin

section \<open>Python values and errors\<close>

text \<open>
  The exceptions that the modelled functions of \<^verbatim>\<open>atree.py\<close> can raise. An exception is
  the \<open>Inl\<close> side of a sum; Python's \<^verbatim>\<open>None\<close> is the \<open>None\<close> of an option.
\<close>

datatype py_error = AttributeError | IndexError | TypeError

text \<open>
  Attribute values read by the comparator: numbers (\<^verbatim>\<open>int\<close>, \<^verbatim>\<open>float\<close> and \<^verbatim>\<open>bool\<close>, which
  \<^verbatim>\<open>isinstance(af, (int, float))\<close> accepts) and strings. Strings are ordered
  lexicographically by character code, as Python orders \<^verbatim>\<open>str\<close>.
\<close>

datatype fval = NumV int | StrV string

text \<open>
  An object is read through \<^verbatim>\<open>getattr(n, f, None)\<close> only: it is the partial map from
  attribute names to values, a missing attribute reading as \<open>None\<close>.
\<close>

type_synonym 'v obj = "string \<Rightarrow> 'v option"

section \<open>Null-aware algebra\<close>

text \<open>
  \<^verbatim>\<open>i = int(a is not None) + 2 * int(b is not None)\<close>, the index that \<^verbatim>\<open>lt\<close>, \<^verbatim>\<open>le\<close>,
  \<^verbatim>\<open>add\<close> and the comparator all branch on.
\<close>

definition presence :: "'a option \<Rightarrow> 'b option \<Rightarrow> nat" where
  "presence a b = (if a \<noteq> None then 1 else 0) + 2 * (if b \<noteq> None then 1 else 0)"

definition lt :: "int option \<Rightarrow> int option \<Rightarrow> bool" where
  "lt a b = (let i = presence a b in
     i = 2 \<or> (i = 3 \<and> (case (a, b) of (Some x, Some y) \<Rightarrow> x < y | _ \<Rightarrow> False)))"

definition le :: "int option \<Rightarrow> int option \<Rightarrow> bool" where
  "le a b = (let i = presence a b in
     i = 0 \<or> i = 2 \<or> (i = 3 \<and> (case (a, b) of (Some x, Some y) \<Rightarrow> x \<le> y | _ \<Rightarrow> False)))"

definition gt :: "int option \<Rightarrow> int option \<Rightarrow> bool" where
  "gt a b = lt b a"

definition ge :: "int option \<Rightarrow> int option \<Rightarrow> bool" where
  "ge a b = le b a"

definition min_of :: "int option \<Rightarrow> int option \<Rightarrow> int option" where
  "min_of a b = (if lt a b then a else b)"

definition max_of :: "int option \<Rightarrow> int option \<Rightarrow> int option" where
  "max_of a b = (if lt a b then b else a)"

definition nn_lt :: "int option \<Rightarrow> int option \<Rightarrow> bool" where
  "nn_lt a b = (a \<noteq> None \<and> lt a b)"

definition nn_le :: "int option \<Rightarrow> int option \<Rightarrow> bool" where
  "nn_le a b = (a \<noteq> None \<and> le a b)"

definition add :: "int option \<Rightarrow> int option \<Rightarrow> int option" where
  "add a b = (let i = presence a b in
     if i = 0 then None
     else if i = 1 then a
     else if i = 2 then b
     else (case (a, b) of (Some x, Some y) \<Rightarrow> Some (x + y) | _ \<Rightarrow> None))"

text \<open>
  \<^verbatim>\<open>best_of\<close> and \<^verbatim>\<open>sum_of\<close> read one numeric attribute of every node, drop the absent
  readings, and reduce the rest with \<^verbatim>\<open>max\<close> (\<^verbatim>\<open>ValueError\<close> on the empty sequence is
  caught and becomes \<^verbatim>\<open>None\<close>) and with \<^verbatim>\<open>sum\<close> (which is \<open>0\<close> on the empty sequence).
\<close>

definition present_attrs :: "int obj list \<Rightarrow> string \<Rightarrow> int list" where
  "present_attrs nodes attr = concat (map (\<lambda>n. case n attr of None \<Rightarrow> [] | Some a \<Rightarrow> [a]) nodes)"

definition best_of :: "int obj list \<Rightarrow> string \<Rightarrow> int option" where
  "best_of nodes attr =
     (case present_attrs nodes attr of
        [] \<Rightarrow> None
      | a # as \<Rightarrow> Some (fold max as a))"

definition sum_of :: "int obj list \<Rightarrow> string \<Rightarrow> int option" where
  "sum_of nodes attr = Some (sum_list (present_attrs nodes attr))"

section \<open>The sort comparator\<close>

text \<open>
  \<^verbatim>\<open>(af > bf) - (af < bf)\<close>: Python compares numbers with numbers and strings with strings,
  and raises \<^verbatim>\<open>TypeError\<close> on a number against a string.
\<close>

fun three_way :: "fval \<Rightarrow> fval \<Rightarrow> py_error + int" where
  "three_way (NumV x) (NumV y) = Inr ((if x > y then 1 else 0) - (if x < y then 1 else 0))"
| "three_way (StrV x) (StrV y) = Inr ((if x > y then 1 else 0) - (if x < y then 1 else 0))"
| "three_way _ _ = Inl TypeError"

fun is_number :: "fval \<Rightarrow> bool" where
  "is_number (NumV _) = True"
| "is_number (StrV _) = False"

text \<open>The \<^verbatim>\<open>for f in fields\<close> loop of \<^verbatim>\<open>cmp\<close>, on two objects that are not \<^verbatim>\<open>None\<close>.\<close>

fun cmp_fields :: "string list \<Rightarrow> fval obj \<Rightarrow> fval obj \<Rightarrow> py_error + int" where
  "cmp_fields [] a b = Inr 0"
| "cmp_fields (f # fs) a b =
     (let af = a f; bf = b f; i = presence af bf in
      if 0 < i \<and> i < 3 then Inr ([0, - 1, 1] ! i)
      else if i = 3 then
        (case (af, bf) of
           (Some x, Some y) \<Rightarrow>
             (case three_way x y of
                Inl e \<Rightarrow> Inl e
              | Inr result \<Rightarrow>
                  if result \<noteq> 0 then (if is_number x then Inr (- result) else Inr result)
                  else cmp_fields fs a b)
         | _ \<Rightarrow> cmp_fields fs a b)
      else cmp_fields fs a b)"

definition fields_to_cmp :: "string list \<Rightarrow> fval obj option \<Rightarrow> fval obj option \<Rightarrow> py_error + int" where
  "fields_to_cmp fields a b =
     (let i = presence a b in
      if i < 3 then Inr ([0, - 1, 1] ! i)
      else (case (a, b) of (Some x, Some y) \<Rightarrow> cmp_fields fields x y | _ \<Rightarrow> Inr 0))"

section \<open>The Top-K selector\<close>

text \<open>
  \<^verbatim>\<open>Value_and_Which\<close> pairs a value with the node it came from; its \<^verbatim>\<open>__lt__\<close> compares the
  values only. Values offered by the walk are never \<^verbatim>\<open>None\<close> (the gate \<^verbatim>\<open>le(val, ...)\<close> skips
  them first), so they are numbers. Line counts and sizes are integers; timestamps are
  only ever compared, and are modelled as integers too.
\<close>

type_synonym 'w value_and_which = "int \<times> 'w"

definition vw_lt :: "'w value_and_which \<Rightarrow> 'w value_and_which \<Rightarrow> bool" where
  "vw_lt a b = (fst a < fst b)"

text \<open>
  \<^verbatim>\<open>heapq\<close> of the Python standard library, on a list used as a binary min-heap:
  \<^verbatim>\<open>_siftdown(heap, startpos, pos)\<close> moves the item at \<open>pos\<close> up towards \<open>startpos\<close> while it
  is less than its parent at \<open>(pos - 1) >> 1\<close>; \<^verbatim>\<open>_siftup(heap, pos)\<close> moves the smaller child
  up until a leaf is reached, puts the item there and sifts it down again;
  \<^verbatim>\<open>heappush\<close> appends and sifts; \<^verbatim>\<open>heappushpop\<close> swaps the item with the root when the
  root is less than it, and returns what it removed. The positions read are always inside
  the list: \<open>pos\<close> is the last index after the append, or \<open>0\<close> on a non-empty heap.
\<close>

function siftdown_loop ::
  "'w value_and_which list \<Rightarrow> nat \<Rightarrow> nat \<Rightarrow> 'w value_and_which \<Rightarrow> 'w value_and_which list" where
  "siftdown_loop heap startpos pos newitem =
     (if pos > startpos then
        (let parentpos = (pos - 1) div 2;
             parent = heap ! parentpos
         in if vw_lt newitem parent
            then siftdown_loop (heap[pos := parent]) startpos parentpos newitem
            else heap[pos := newitem])
      else heap[pos := newitem])"
  by pat_completeness auto
termination
  by (relation "measure (\<lambda>(heap, startpos, pos, newitem). pos)") auto

declare siftdown_loop.simps [simp del]

definition siftdown :: "'w value_and_which list \<Rightarrow> nat \<Rightarrow> nat \<Rightarrow> 'w value_and_which list" where
  "siftdown heap startpos pos = siftdown_loop heap startpos pos (heap ! pos)"

function siftup_loop ::
  "'w value_and_which list \<Rightarrow> nat \<Rightarrow> nat \<Rightarrow> 'w value_and_which list \<times> nat" where
  "siftup_loop heap endpos pos =
     (let childpos = 2 * pos + 1
      in if childpos < endpos then
           (let rightpos = childpos + 1;
                childpos' = (if rightpos < endpos \<and> \<not> vw_lt (heap ! childpos) (heap ! rightpos)
                             then rightpos else childpos)
            in siftup_loop (heap[pos := heap ! childpos']) endpos childpos')
         else (heap, pos))"
  by pat_completeness auto
termination
  by (relation "measure (\<lambda>(heap, endpos, pos). endpos - pos)") (auto simp: Let_def)

declare siftup_loop.simps [simp del]

definition siftup :: "'w value_and_which list \<Rightarrow> nat \<Rightarrow> 'w value_and_which list" where
  "siftup heap pos =
     (let endpos = length heap;
          startpos = pos;
          newitem = heap ! pos;
          (heap', pos') = siftup_loop heap endpos pos
      in siftdown (heap'[pos' := newitem]) startpos pos')"

definition heappush :: "'w value_and_which list \<Rightarrow> 'w value_and_which \<Rightarrow> 'w value_and_which list" where
  "heappush heap item = siftdown (heap @ [item]) 0 (length (heap @ [item]) - 1)"

definition heappushpop ::
  "'w value_and_which list \<Rightarrow> 'w value_and_which \<Rightarrow> 'w value_and_which list \<times> 'w value_and_which" where
  "heappushpop heap item =
     (if heap \<noteq> [] \<and> vw_lt (heap ! 0) item
      then (siftup (heap[0 := item]) 0, heap ! 0)
      else (heap, item))"


text \<open>
  \<^verbatim>\<open>Top_K_and_Which\<close>: \<^verbatim>\<open>push\<close> is \<^verbatim>\<open>heappush\<close> below capacity and \<^verbatim>\<open>heappushpop\<close> at capacity;
  \<^verbatim>\<open>next_to_pop\<close> is \<^verbatim>\<open>None\<close> below capacity and \<^verbatim>\<open>self._list[0].value\<close> otherwise, which
  raises \<^verbatim>\<open>IndexError\<close> on an empty list (a capacity below one).
\<close>

record 'w top_k =
  capacity :: int
  heap_list :: "'w value_and_which list"

definition push :: "'w top_k \<Rightarrow> int \<Rightarrow> 'w \<Rightarrow> 'w top_k" where
  "push t v which =
     (if int (length (heap_list t)) < capacity t
      then t\<lparr>heap_list := heappush (heap_list t) (v, which)\<rparr>
      else t\<lparr>heap_list := fst (heappushpop (heap_list t) (v, which))\<rparr>)"

definition next_to_pop :: "'w top_k \<Rightarrow> py_error + int option" where
  "next_to_pop t =
     (if int (length (heap_list t)) < capacity t then Inr None
      else (case heap_list t of [] \<Rightarrow> Inl IndexError | x # _ \<Rightarrow> Inr (Some (fst x))))"

text \<open>
  The values held by a selector, and a stream of offers pushed in order onto it.
\<close>

definition held :: "'w top_k \<Rightarrow> int list" where
  "held t = map fst (heap_list t)"

fun offer_all :: "'w value_and_which list \<Rightarrow> 'w top_k \<Rightarrow> 'w top_k" where
  "offer_all [] t = t"
| "offer_all ((v, which) # offers) t = offer_all offers (push t v which)"


text \<open>
  The heap property on the list (every item is at least its parent), and the loop
  invariants of the two sifting loops: \<open>sd_inv\<close> for the upward loop of
  \<^verbatim>\<open>_siftdown\<close> with \<open>x\<close> the item in hand, \<open>su_inv\<close> for the downward loop of \<^verbatim>\<open>_siftup\<close>.
  \<open>sel_inv K t seen\<close> says that the selector \<open>t\<close> of capacity \<open>K\<close> holds
  \<open>min K (length seen)\<close> of the values \<open>seen\<close>, none smaller than a value it does not hold.
\<close>

definition heap_inv :: "'w value_and_which list \<Rightarrow> bool" where
  "heap_inv h = (\<forall>i < length h. 0 < i \<longrightarrow> fst (h ! ((i - 1) div 2)) \<le> fst (h ! i))"

definition sd_inv :: "'w value_and_which list \<Rightarrow> nat \<Rightarrow> 'w value_and_which \<Rightarrow> bool" where
  "sd_inv h pos x = (pos < length h \<and>
     (\<forall>i < length h. 0 < i \<longrightarrow> i \<noteq> pos \<longrightarrow> fst (h ! ((i - 1) div 2)) \<le> fst (h ! i)) \<and>
     fst x \<le> fst (h ! pos) \<and>
     (\<forall>c < length h. 0 < c \<longrightarrow> (c - 1) div 2 = pos \<longrightarrow> 0 < pos \<longrightarrow>
         fst (h ! ((pos - 1) div 2)) \<le> fst (h ! c)))"

definition su_inv :: "'w value_and_which list \<Rightarrow> nat \<Rightarrow> bool" where
  "su_inv h pos =
     ((\<forall>i < length h. 0 < i \<longrightarrow> (i - 1) div 2 \<noteq> pos \<longrightarrow> fst (h ! ((i - 1) div 2)) \<le> fst (h ! i)) \<and>
      (\<forall>c < length h. 0 < c \<longrightarrow> (c - 1) div 2 = pos \<longrightarrow> 0 < pos \<longrightarrow>
          fst (h ! ((pos - 1) div 2)) \<le> fst (h ! c)))"

definition sel_inv :: "int \<Rightarrow> 'w top_k \<Rightarrow> int list \<Rightarrow> bool" where
  "sel_inv K t seen =
     (capacity t = K \<and> heap_inv (heap_list t)
      \<and> length (heap_list t) = min (nat K) (length seen)
      \<and> mset (held t) \<subseteq># mset seen
      \<and> (\<forall>h \<in># mset (held t). \<forall>a \<in># mset seen - mset (held t). a \<le> h))"

section \<open>The filesystem seen by the walk\<close>

text \<open>
  What the walk reads of one filesystem entry, each read being memoised by \<^verbatim>\<open>@cached\<close>: the
  kind of the entry from \<^verbatim>\<open>os.lstat\<close> (for a symbolic link, what \<^verbatim>\<open>os.stat\<close> does on it: the
  message of the \<^verbatim>\<open>OSError\<close> it raises, as on a broken link, or whether it finds a directory
  behind the link), the size and the four timestamps
  of \<^verbatim>\<open>os.lstat\<close> (\<open>st_btime\<close> is what the property \<^verbatim>\<open>btime\<close> returns), the result of
  \<^verbatim>\<open>count_lines\<close> when \<^verbatim>\<open>guess_text\<close> holds, the hex digest of the content when the file can
  be read, and the outcome of \<^verbatim>\<open>os.listdir\<close>: the message of the \<^verbatim>\<open>OSError\<close> or the entries.
  \<^verbatim>\<open>os.lstat\<close> is taken to succeed on every entry that \<^verbatim>\<open>os.listdir\<close> returned. Timestamps
  are only compared by the walk and are integers here.
\<close>

datatype kind = Regular | Directory | Symlink "string + bool" | Other

datatype fsentry = FSEntry
  (e_name: string)
  (e_kind: kind)
  (st_size: int) (st_atime: int) (st_btime: int) (st_ctime: int) (st_mtime: int)
  (text_lines: "int option")
  (hexdigest: "string option")
  (listdir: "string + fsentry list")

text \<open>The properties of \<^verbatim>\<open>Node\<close> that the walk uses.\<close>

definition is_link :: "fsentry \<Rightarrow> bool" where
  "is_link e = (case e_kind e of Symlink _ \<Rightarrow> True | _ \<Rightarrow> False)"

definition is_dir :: "fsentry \<Rightarrow> bool" where
  "is_dir e = (e_kind e = Directory)"

definition is_file :: "fsentry \<Rightarrow> bool" where
  "is_file e = (e_kind e = Regular)"

definition is_to_dir :: "fsentry \<Rightarrow> bool" where
  "is_to_dir e =
     (case e_kind e of
        Directory \<Rightarrow> True
      | Symlink (Inr b) \<Rightarrow> b
      | _ \<Rightarrow> False)"

text \<open>
  The message that the first read of \<^verbatim>\<open>is_to_dir\<close> passes to \<^verbatim>\<open>warning_print\<close>, when
  \<^verbatim>\<open>os.stat\<close> raises.
\<close>

definition stat_error :: "fsentry \<Rightarrow> string option" where
  "stat_error e = (case e_kind e of Symlink (Inl message) \<Rightarrow> Some message | _ \<Rightarrow> None)"

definition lines :: "fsentry \<Rightarrow> int option" where
  "lines e = (if is_file e then text_lines e else None)"

text \<open>
  \<^verbatim>\<open>compute_md5\<close> returns the sentinel for the digest of the empty content, the digest
  otherwise, and \<^verbatim>\<open>None\<close> when the file cannot be read; \<^verbatim>\<open>Node.md5\<close> is \<^verbatim>\<open>None\<close> for what is
  not a regular file.
\<close>

definition EMPTY_FILE_MD5_HASH :: string where
  "EMPTY_FILE_MD5_HASH = ''~''"

definition EMPTY_FILE_MD5_ORIG :: string where
  "EMPTY_FILE_MD5_ORIG = ''d41d8cd98f00b204e9800998ecf8427e''"

definition compute_md5 :: "fsentry \<Rightarrow> string option" where
  "compute_md5 e =
     (case hexdigest e of
        None \<Rightarrow> None
      | Some result \<Rightarrow> if result = EMPTY_FILE_MD5_ORIG then Some EMPTY_FILE_MD5_HASH else Some result)"

definition md5 :: "fsentry \<Rightarrow> string option" where
  "md5 e = (if is_file e then compute_md5 e else None)"

text \<open>
  The ranking metric of top-mode: \<^verbatim>\<open>top_mode\<close> is one of \<^verbatim>\<open>flines\<close>, \<^verbatim>\<open>fsize\<close>, \<^verbatim>\<open>fatime\<close>,
  \<^verbatim>\<open>fbtime\<close>, \<^verbatim>\<open>fctime\<close>, \<^verbatim>\<open>fmtime\<close>. \<open>f_attr\<close> is \<^verbatim>\<open>getattr(f, self.top_mode, None)\<close>, which
  \<^verbatim>\<open>Node.__getattr__\<close> answers with the plain attribute for a file or a link and with
  \<^verbatim>\<open>None\<close> for anything else.
\<close>

datatype metric = Lines | Size | Atime | Btime | Ctime | Mtime

definition plain_attr :: "metric \<Rightarrow> fsentry \<Rightarrow> int option" where
  "plain_attr m e =
     (case m of
        Lines \<Rightarrow> lines e
      | Size \<Rightarrow> Some (st_size e)
      | Atime \<Rightarrow> Some (st_atime e)
      | Btime \<Rightarrow> Some (st_btime e)
      | Ctime \<Rightarrow> Some (st_ctime e)
      | Mtime \<Rightarrow> Some (st_mtime e))"

definition f_attr :: "metric \<Rightarrow> fsentry \<Rightarrow> int option" where
  "f_attr m e = (if is_file e \<or> is_link e then plain_attr m e else None)"

section \<open>Nodes and their aggregates\<close>

text \<open>
  The attributes that \<^verbatim>\<open>_gather\<close> sets on a directory. \<^verbatim>\<open>top_val\<close> is set by \<^verbatim>\<open>_gather\<close> in
  top-mode only, and reading it where it was never set raises \<^verbatim>\<open>AttributeError\<close>: a slot
  is \<open>Unset\<close> or \<open>Assigned\<close>. \<^verbatim>\<open>ignore\<close> is read with \<^verbatim>\<open>getattr(node, "ignore", None)\<close>, so
  unset reads as false. With them goes what \<^verbatim>\<open>Node.__init__\<close> made of \<^verbatim>\<open>children\<close>: a set when
  \<^verbatim>\<open>is_dir\<close> holds (\<open>has_child_set\<close>) and \<^verbatim>\<open>None\<close> otherwise, on which \<^verbatim>\<open>root.children.add\<close>
  raises \<^verbatim>\<open>AttributeError\<close>. A node is a \<open>Leaf\<close> when no aggregate was set on it (a file, or
  a link to a directory) and a \<open>Dir\<close> with its aggregates and its children otherwise. The
  children are a Python set of distinct objects; they are listed here in the order in
  which they were added.
\<close>

datatype 'a slot = Unset | Assigned 'a

record aggr =
  fcount :: int
  dcount :: int
  blines :: "int option"
  rlines :: "int option"
  bsize :: "int option"
  rsize :: "int option"
  batime :: "int option"
  bbtime :: "int option"
  bctime :: "int option"
  bmtime :: "int option"
  top_val :: "int option slot"
  ignore :: bool
  has_child_set :: bool

datatype node = Leaf fsentry | Dir fsentry aggr "node list"

text \<open>
  \<open>b_attr\<close> is \<^verbatim>\<open>getattr(root, self.top_attr)\<close> with \<^verbatim>\<open>top_attr = "b" + top_mode.lstrip("f")\<close>, and
  \<open>own_stats\<close> are the values that \<^verbatim>\<open>_gather\<close> (and its \<^verbatim>\<open>else\<close> branch for a directory that is
  not entered) assigns before anything is listed, on a node that \<^verbatim>\<open>Node.__init__\<close> gave a set
  of children exactly when \<^verbatim>\<open>os.lstat\<close> says it is a directory.
\<close>

definition b_attr :: "metric \<Rightarrow> aggr \<Rightarrow> int option" where
  "b_attr m a =
     (case m of
        Lines \<Rightarrow> blines a
      | Size \<Rightarrow> bsize a
      | Atime \<Rightarrow> batime a
      | Btime \<Rightarrow> bbtime a
      | Ctime \<Rightarrow> bctime a
      | Mtime \<Rightarrow> bmtime a)"

definition own_stats :: "fsentry \<Rightarrow> aggr" where
  "own_stats e =
     \<lparr>fcount = 0, dcount = 0, blines = None, rlines = None,
      bsize = Some (st_size e), rsize = Some (st_size e),
      batime = Some (st_atime e), bbtime = Some (st_btime e),
      bctime = Some (st_ctime e), bmtime = Some (st_mtime e),
      top_val = Unset, ignore = False, has_child_set = is_dir e\<rparr>"

section \<open>The tree object\<close>

text \<open>
  The fields of \<^verbatim>\<open>Tree\<close> that \<^verbatim>\<open>_gather\<close> reads and never writes (with the global
  \<^verbatim>\<open>WARNINGS_ON\<close>), and those it updates: the selector, the two containers of the duplicate
  grouper, \<^verbatim>\<open>_level_reached\<close>, and the messages that \<^verbatim>\<open>_gather\<close> has \<^verbatim>\<open>warning_print\<close> print: the
  one of a failed \<^verbatim>\<open>os.listdir\<close> and those of \<^verbatim>\<open>is_to_dir\<close> on the entries it classifies. The
  progress line is not modelled, nor is what \<^verbatim>\<open>guess_text\<close>, \<^verbatim>\<open>count_lines\<close> and \<^verbatim>\<open>compute_md5\<close>
  print when a file cannot be read. An accumulator is the directory being gathered (its
  aggregates and its children so far) with the state.
\<close>

record tree_config =
  access_level :: int
  fpred :: "fsentry \<Rightarrow> bool"
  dpred :: "fsentry \<Rightarrow> bool"
  dpost :: "node \<Rightarrow> bool"
  always_show_dirs :: bool
  top_mode :: "metric option"
  dup_mode :: bool
  dup_nonempty :: bool
  read_lines :: bool
  warnings_on :: bool

record tree_state =
  top_heap :: "fsentry top_k"
  dup_map :: "string option \<Rightarrow> fsentry list option"
  dup_set :: "string set"
  level_reached :: int
  warnings :: "string list"

type_synonym acc = "aggr \<times> node list \<times> tree_state"

definition warning_print :: "tree_config \<Rightarrow> string \<Rightarrow> tree_state \<Rightarrow> tree_state" where
  "warning_print cfg message st =
     (if warnings_on cfg then st\<lparr>warnings := warnings st @ [message]\<rparr> else st)"

text \<open>
  \<^verbatim>\<open>root.rsize += x\<close>: plain addition, which raises \<^verbatim>\<open>TypeError\<close> on \<^verbatim>\<open>None\<close>.
\<close>

definition iadd :: "int option \<Rightarrow> int option \<Rightarrow> py_error + int option" where
  "iadd a b = (case (a, b) of (Some x, Some y) \<Rightarrow> Inr (Some (x + y)) | _ \<Rightarrow> Inl TypeError)"

text \<open>
  The duplicate block of the file loop. \<^verbatim>\<open>if checksum and checksum in self.dup_map\<close> needs a
  checksum that is neither \<^verbatim>\<open>None\<close> nor the empty string; otherwise the entry of the
  checksum (\<^verbatim>\<open>None\<close> included, as a key) is overwritten with the one-node list.
\<close>

definition truthy :: "string option \<Rightarrow> bool" where
  "truthy c = (case c of None \<Rightarrow> False | Some s \<Rightarrow> s \<noteq> [])"

definition dup_record :: "tree_config \<Rightarrow> fsentry \<Rightarrow> tree_state \<Rightarrow> tree_state" where
  "dup_record cfg f st =
     (if dup_mode cfg then
        (let checksum = md5 f in
         if checksum \<noteq> Some EMPTY_FILE_MD5_HASH \<or> \<not> dup_nonempty cfg then
           (case (checksum, dup_map st checksum) of
              (Some c, Some fs) \<Rightarrow>
                if truthy checksum
                then st\<lparr>dup_map := (dup_map st)(checksum \<mapsto> fs @ [f]), dup_set := insert c (dup_set st)\<rparr>
                else st\<lparr>dup_map := (dup_map st)(checksum \<mapsto> [f])\<rparr>
            | _ \<Rightarrow> st\<lparr>dup_map := (dup_map st)(checksum \<mapsto> [f])\<rparr>)
         else st)
      else st)"

text \<open>
  The body of \<^verbatim>\<open>for f in f_nodes\<close>. \<open>file_step\<close> is the whole body: in top-mode the gate
  \<^verbatim>\<open>if le(val, self.top_heap.next_to_pop): continue\<close>, then the push and the update of
  \<^verbatim>\<open>top_val\<close>; \<open>file_link\<close> is the rest, from \<^verbatim>\<open>root.children.add(f)\<close>, which raises when
  \<^verbatim>\<open>root.children\<close> is \<^verbatim>\<open>None\<close>, to the duplicate block. The branch for an absent value after
  the gate is never taken, since \<^verbatim>\<open>le(None, t)\<close> holds.
\<close>

definition file_link :: "tree_config \<Rightarrow> fsentry \<Rightarrow> acc \<Rightarrow> py_error + acc" where
  "file_link cfg f acc =
     (case acc of (a, children, st) \<Rightarrow>
        if \<not> has_child_set a then Inl AttributeError
        else
        (let a1 = a\<lparr>fcount := fcount a + 1\<rparr>;
             a2 = (if read_lines cfg
                   then a1\<lparr>blines := max_of (lines f) (blines a1), rlines := add (rlines a1) (lines f)\<rparr>
                   else a1);
             a3 = a2\<lparr>bsize := max_of (Some (st_size f)) (bsize a2)\<rparr>
         in case iadd (rsize a3) (Some (st_size f)) of
              Inl e \<Rightarrow> Inl e
            | Inr r \<Rightarrow>
                Inr (a3\<lparr>rsize := r,
                        batime := max_of (Some (st_atime f)) (batime a3),
                        bbtime := max_of (Some (st_btime f)) (bbtime a3),
                        bctime := max_of (Some (st_ctime f)) (bctime a3),
                        bmtime := max_of (Some (st_mtime f)) (bmtime a3)\<rparr>,
                     children @ [Leaf f],
                     dup_record cfg f st)))"

definition file_step :: "tree_config \<Rightarrow> fsentry \<Rightarrow> acc \<Rightarrow> py_error + acc" where
  "file_step cfg f acc =
     (case acc of (a, children, st) \<Rightarrow>
        (case top_mode cfg of
           None \<Rightarrow> file_link cfg f acc
         | Some m \<Rightarrow>
             (let val = f_attr m f in
              case next_to_pop (top_heap st) of
                Inl e \<Rightarrow> Inl e
              | Inr threshold \<Rightarrow>
                  if le val threshold then Inr acc
                  else (case val of
                          None \<Rightarrow> Inl TypeError
                        | Some v \<Rightarrow>
                            (case top_val a of
                               Unset \<Rightarrow> Inl AttributeError
                             | Assigned tv \<Rightarrow>
                                 file_link cfg f
                                   (a\<lparr>top_val := Assigned (max_of val tv)\<rparr>, children,
                                    st\<lparr>top_heap := push (top_heap st) v f\<rparr>))))))"

fun files_loop :: "tree_config \<Rightarrow> fsentry list \<Rightarrow> acc \<Rightarrow> py_error + acc" where
  "files_loop cfg [] acc = Inr acc"
| "files_loop cfg (f # fs) acc =
     (case file_step cfg f acc of Inl e \<Rightarrow> Inl e | Inr acc' \<Rightarrow> files_loop cfg fs acc')"

text \<open>
  The body of \<^verbatim>\<open>for d in d_nodes\<close> after the visit of \<open>d\<close>: \<open>dir_link\<close> is the post-filter, the
  empty-directory test and the top-mode gate \<^verbatim>\<open>if lt(d.top_val, ...): continue\<close>, and
  \<open>dir_add\<close> is the rest, from \<^verbatim>\<open>root.children.add(d)\<close> on.
\<close>

definition dir_add :: "fsentry \<Rightarrow> aggr \<Rightarrow> node list \<Rightarrow> acc \<Rightarrow> py_error + acc" where
  "dir_add d da dchildren acc =
     (case acc of (a, children, st) \<Rightarrow>
        if \<not> has_child_set a then Inl AttributeError
        else
        (let a1 = a\<lparr>fcount := fcount a + fcount da, dcount := dcount a + (dcount da + 1)\<rparr>;
             a2 = (if rlines da \<noteq> None
                   then a1\<lparr>blines := max_of (blines da) (blines a1), rlines := add (rlines a1) (rlines da)\<rparr>
                   else a1);
             a3 = a2\<lparr>bsize := max_of (bsize da) (bsize a2)\<rparr>
         in case iadd (rsize a3) (rsize da) of
              Inl e \<Rightarrow> Inl e
            | Inr r \<Rightarrow>
                Inr (a3\<lparr>rsize := r,
                        bmtime := max_of (bmtime da) (bmtime a3),
                        batime := max_of (batime da) (batime a3),
                        bctime := max_of (bctime da) (bctime a3),
                        bbtime := max_of (bbtime da) (bbtime a3)\<rparr>,
                     children @ [Dir d da dchildren],
                     st)))"

definition dir_link :: "tree_config \<Rightarrow> fsentry \<Rightarrow> aggr \<Rightarrow> node list \<Rightarrow> acc \<Rightarrow> py_error + acc" where
  "dir_link cfg d da dchildren acc =
     (case acc of (a, children, st) \<Rightarrow>
        if \<not> dpost cfg (Dir d da dchildren) then Inr acc
        else if \<not> always_show_dirs cfg \<and> fcount da = 0 \<and> dcount da = 0 then Inr acc
        else (case top_mode cfg of
                None \<Rightarrow> dir_add d da dchildren acc
              | Some m \<Rightarrow>
                  (case top_val da of
                     Unset \<Rightarrow> Inl AttributeError
                   | Assigned dv \<Rightarrow>
                       (case next_to_pop (top_heap st) of
                          Inl e \<Rightarrow> Inl e
                        | Inr threshold \<Rightarrow>
                            if lt dv threshold then Inr acc
                            else (case top_val a of
                                    Unset \<Rightarrow> Inl AttributeError
                                  | Assigned rv \<Rightarrow>
                                      dir_add d da dchildren
                                        (a\<lparr>top_val := Assigned (max_of dv rv)\<rparr>, children, st))))))"

text \<open>
  The fields set by the \<^verbatim>\<open>else\<close> branch of \<^verbatim>\<open>if level < self.access_level\<close>: \<^verbatim>\<open>ignore\<close> and the
  own stats; \<^verbatim>\<open>top_val\<close> is not among them.
\<close>

definition truncated :: "fsentry \<Rightarrow> aggr" where
  "truncated d = (own_stats d)\<lparr>ignore := True\<rparr>"

text \<open>
  \<^verbatim>\<open>_gather\<close> and its loop over the subdirectories. The loop that sorts the entries into
  \<^verbatim>\<open>f_nodes\<close> and \<^verbatim>\<open>d_nodes\<close> reads \<^verbatim>\<open>is_to_dir\<close> of each entry for the first time, in the order
  of the listing, and so prints the warnings of the entries on which \<^verbatim>\<open>os.stat\<close> raises
  before any file is looked at. The recursion descends into the entries of a listing, so
  it terminates on every (finite) tree of entries.
\<close>

definition stat_warning :: "tree_config \<Rightarrow> fsentry \<Rightarrow> tree_state \<Rightarrow> tree_state" where
  "stat_warning cfg n st =
     (case stat_error n of None \<Rightarrow> st | Some message \<Rightarrow> warning_print cfg message st)"


lemma size_filter_le: "size_list f (filter P xs) \<le> size_list f xs"
  by (induction xs) auto

lemma listdir_size: "listdir e = Inr es \<Longrightarrow> size_list size es < size e"
  by (cases e) auto

lemma listdir_filter_size:
  "listdir e = Inr es \<Longrightarrow> Suc (2 * size_list size (filter P es)) < 2 * size e"
  using size_filter_le[of size P es] listdir_size[of e es] by linarith

function gather :: "tree_config \<Rightarrow> fsentry \<Rightarrow> int \<Rightarrow> tree_state \<Rightarrow> py_error + acc"
  and dirs_loop :: "tree_config \<Rightarrow> int \<Rightarrow> fsentry list \<Rightarrow> acc \<Rightarrow> py_error + acc" where
  "gather cfg root level st =
     (let st1 = st\<lparr>level_reached := max level (level_reached st)\<rparr>;
          a0 = own_stats root;
          a1 = (case top_mode cfg of None \<Rightarrow> a0 | Some m \<Rightarrow> a0\<lparr>top_val := Assigned (b_attr m a0)\<rparr>)
      in case listdir root of
           Inl e \<Rightarrow> Inr (a1, [], warning_print cfg e st1)
         | Inr all_nodes \<Rightarrow>
             (let st2 = fold (stat_warning cfg) all_nodes st1;
                  f_nodes = filter (\<lambda>n. \<not> is_to_dir n \<and> fpred cfg n) all_nodes;
                  d_nodes = filter (\<lambda>n. is_to_dir n \<and> dpred cfg n) all_nodes
              in case files_loop cfg f_nodes (a1, [], st2) of
                   Inl e \<Rightarrow> Inl e
                 | Inr acc \<Rightarrow> dirs_loop cfg level d_nodes acc))"
| "dirs_loop cfg level [] acc = Inr acc"
| "dirs_loop cfg level (d # ds) acc =
     (case acc of (a, children, st) \<Rightarrow>
        if is_link d then
          (if always_show_dirs cfg
           then (if has_child_set a
                 then dirs_loop cfg level ds (a\<lparr>dcount := dcount a + 1\<rparr>, children @ [Leaf d], st)
                 else Inl AttributeError)
           else dirs_loop cfg level ds acc)
        else
          (case (if level < access_level cfg then gather cfg d (level + 1) st
                 else Inr (truncated d, [], st)) of
             Inl e \<Rightarrow> Inl e
           | Inr (da, dchildren, st') \<Rightarrow>
               (case dir_link cfg d da dchildren (a, children, st') of
                  Inl e \<Rightarrow> Inl e
                | Inr acc' \<Rightarrow> dirs_loop cfg level ds acc')))"
  by pat_completeness auto
termination
  apply (relation "measure (\<lambda>x. case x of
            Inl (cfg, root, level, st) \<Rightarrow> 2 * size root
          | Inr (cfg, level, ds, acc) \<Rightarrow> 2 * size_list size ds + 1)")
      apply (auto simp: listdir_filter_size)
  done

declare gather.simps [simp del] dirs_loop.simps(2) [simp del]



text \<open>The state that \<^verbatim>\<open>Tree.__init__\<close> sets up, with \<^verbatim>\<open>Top_K_and_Which(top_count)\<close>.\<close>

definition initial_state :: "int \<Rightarrow> tree_state" where
  "initial_state top_count =
     \<lparr>top_heap = \<lparr>capacity = top_count, heap_list = []\<rparr>,
      dup_map = Map.empty, dup_set = {}, level_reached = 0, warnings = []\<rparr>"

text \<open>
  The visit of one subdirectory \<open>d\<close> that is not a link, met while the directory at
  \<open>level\<close> is gathered: \<^verbatim>\<open>if level < self.access_level: self._gather(d, level + 1)\<close>, else the
  \<^verbatim>\<open>else\<close> branch that sets the fields of \<open>d\<close> without listing it. The walk starts with
  \<^verbatim>\<open>self._gather(self.root, level=1)\<close>, so \<open>d\<close> lies \<open>level\<close> steps below the root.
\<close>

definition visit_dir :: "tree_config \<Rightarrow> int \<Rightarrow> fsentry \<Rightarrow> tree_state \<Rightarrow> py_error + acc" where
  "visit_dir cfg level d st =
     (if level < access_level cfg then gather cfg d (level + 1) st
      else Inr (truncated d, [], st))"

text \<open>
  The aggregate fields of a directory when \<^verbatim>\<open>_gather\<close> reaches \<^verbatim>\<open>os.listdir\<close>: its own
  stats, and in top-mode \<^verbatim>\<open>top_val = getattr(root, self.top_attr)\<close>.
\<close>

definition entered :: "tree_config \<Rightarrow> fsentry \<Rightarrow> aggr" where
  "entered cfg root =
     (case top_mode cfg of
        None \<Rightarrow> own_stats root
      | Some m \<Rightarrow> (own_stats root)\<lparr>top_val := Assigned (b_attr m (own_stats root))\<rparr>)"

text \<open>The same entry with another outcome of \<^verbatim>\<open>os.listdir\<close>.\<close>

fun set_listdir :: "fsentry \<Rightarrow> string + fsentry list \<Rightarrow> fsentry" where
  "set_listdir (FSEntry n k s ta tb tc tm ln hx l) l' = FSEntry n k s ta tb tc tm ln hx l'"

text \<open>
  A surviving child is a file when it is the node of an entry that went through the file
  loop (\<^verbatim>\<open>is_to_dir\<close> false); a link to a directory and a gathered directory are not. The
  size of a child is its own \<^verbatim>\<open>size\<close>.
\<close>

fun is_file_node :: "node \<Rightarrow> bool" where
  "is_file_node (Leaf e) = (\<not> is_to_dir e)"
| "is_file_node (Dir e a children) = False"

fun node_size :: "node \<Rightarrow> int" where
  "node_size (Leaf e) = st_size e"
| "node_size (Dir e a children) = st_size e"

text \<open>
  The gathered directories that lie \<open>k\<close> levels below the nodes of a list of children
  (\<open>k = 0\<close>: among them), and the shape of a child of a directory gathered at level \<open>lv\<close>
  under the access level \<open>L\<close>: a directory below a level that is still entered has
  children of that shape one level down, and a directory that is not entered has the
  truncated aggregates and no children.
\<close>

fun is_dir_node :: "node \<Rightarrow> bool" where
  "is_dir_node (Leaf e) = False"
| "is_dir_node (Dir e a children) = True"

fun dirs_below :: "nat \<Rightarrow> node list \<Rightarrow> node list" where
  "dirs_below 0 ns = filter is_dir_node ns"
| "dirs_below (Suc k) ns =
     concat (map (\<lambda>n. case n of Leaf e \<Rightarrow> [] | Dir e a children \<Rightarrow> dirs_below k children) ns)"

fun cut_at :: "int \<Rightarrow> int \<Rightarrow> node \<Rightarrow> bool" where
  "cut_at L lv (Leaf e) = True"
| "cut_at L lv (Dir d da dch) =
     (if lv < L then list_all (cut_at L (lv + 1)) dch else da = truncated d \<and> dch = [])"

section \<open>The duplicate grouper\<close>



definition dup_inv :: "tree_state \<Rightarrow> bool" where
  "dup_inv st =
     ((\<forall>c. c \<in> dup_set st \<longleftrightarrow> c \<noteq> [] \<and> (\<exists>g. dup_map st (Some c) = Some g \<and> 2 \<le> length g))
      \<and> (\<forall>k g. dup_map st k = Some g \<longrightarrow> g \<noteq> []))"





definition same_dup :: "tree_state \<Rightarrow> tree_state \<Rightarrow> bool" where
  "same_dup s t = (dup_map s = dup_map t \<and> dup_set s = dup_set t)"


section \<open>Example inputs\<close>

text \<open>
  The configuration that \<^verbatim>\<open>make\<close> builds when no option is given (\<^verbatim>\<open>INF_INT\<close> levels,
  empty predicates, \<^verbatim>\<open>always_show_dirs\<close> on), a regular file, a directory of size 4096,
  and small trees built from them.
\<close>

definition default_config :: tree_config where
  "default_config =
     \<lparr>access_level = 4294967295, fpred = (\<lambda>_. True), dpred = (\<lambda>_. True), dpost = (\<lambda>_. True),
      always_show_dirs = True, top_mode = None, dup_mode = False, dup_nonempty = False,
      read_lines = False, warnings_on = True\<rparr>"

definition file_entry :: "string \<Rightarrow> int \<Rightarrow> int option \<Rightarrow> string \<Rightarrow> fsentry" where
  "file_entry name sz ln digest =
     FSEntry name Regular sz 0 0 0 0 ln (Some digest) (Inl ''Not a directory'')"

definition dir_entry :: "string \<Rightarrow> string + fsentry list \<Rightarrow> fsentry" where
  "dir_entry name listing = FSEntry name Directory 4096 0 0 0 0 None None listing"

definition sub_dir :: fsentry where
  "sub_dir = dir_entry ''sub'' (Inr [file_entry ''c.txt'' 50 (Some 5) ''4a8a08f09d37b73795649038408b5f33''])"

definition top_lines_config :: tree_config where
  "top_lines_config = default_config\<lparr>top_mode := Some Lines, read_lines := True\<rparr>"


definition one_file_dir :: fsentry where
  "one_file_dir = dir_entry ''d'' (Inr [file_entry ''a.txt'' 100 (Some 10) ''0cc175b9c0f1b6a831c399e269772661''])"





definition link_root :: fsentry where
  "link_root =
     FSEntry ''link'' (Symlink (Inr True)) 9 0 0 0 0 None None
       (Inr [file_entry ''a.txt'' 100 (Some 10) ''0cc175b9c0f1b6a831c399e269772661''])"

section \<open>Laws of the null-aware algebra\<close>

lemma le_absent_left: "le None t"
  by (cases t) (simp_all add: le_def presence_def)

lemma cmp_fields_present_absent:
  assumes "a f \<noteq> None" "b f = None"
  shows "cmp_fields (f # fs) a b = Inr (- 1)" "cmp_fields (f # fs) b a = Inr 1"
  using assms by (auto simp: presence_def)

text \<open>
  Claim C3. With \<open>None\<close> for an absent value: \<^verbatim>\<open>max_of(None, x) == x\<close> for every \<open>x\<close>, present
  or absent; \<^verbatim>\<open>add(None, None)\<close> is absent; \<^verbatim>\<open>add(None, x) == x\<close>; \<^verbatim>\<open>lt(None, b)\<close> is true
  and \<^verbatim>\<open>lt(a, None)\<close> is false for present \<open>a\<close>, \<open>b\<close>; and the comparator built by
  \<^verbatim>\<open>fields_to_cmp\<close> for the sort field \<open>f\<close> (followed by any further fields) returns \<open>-1\<close>,
  "strictly before", on a node where \<open>f\<close> is present against a node where it is absent, and
  \<open>1\<close>, "strictly after", the other way round, whether the present value is a number
  (sorted descending) or a string (sorted ascending).
\<close>

theorem null_algebra_laws:
  "max_of None x = x
   \<and> add None None = None
   \<and> add None x = x
   \<and> lt None (Some b)
   \<and> \<not> lt (Some a) None
   \<and> (n f \<noteq> None \<and> m f = None \<longrightarrow>
        fields_to_cmp (f # fs) (Some n) (Some m) = Inr (- 1)
        \<and> fields_to_cmp (f # fs) (Some m) (Some n) = Inr 1)"
proof -
  have "max_of None x = x"
    by (cases x) (simp_all add: max_of_def lt_def presence_def)
  moreover have "add None None = None"
    by (simp add: add_def presence_def)
  moreover have "add None x = x"
    by (cases x) (simp_all add: add_def presence_def)
  moreover have "lt None (Some b)"
    by (simp add: lt_def presence_def)
  moreover have "\<not> lt (Some a) None"
    by (simp add: lt_def presence_def)
  moreover have "fields_to_cmp (f # fs) (Some n) (Some m) = Inr (- 1)
      \<and> fields_to_cmp (f # fs) (Some m) (Some n) = Inr 1"
    if "n f \<noteq> None \<and> m f = None"
    using that cmp_fields_present_absent[of n f m fs]
    by (simp add: fields_to_cmp_def presence_def)
  ultimately show ?thesis by blast
qed

theorem null_algebra_laws_witness:
  "(Map.empty(''size'' \<mapsto> NumV 7)) ''size'' \<noteq> None \<and> (Map.empty :: fval obj) ''size'' = None
   \<and> fields_to_cmp [''size'', ''name''] (Some (Map.empty(''size'' \<mapsto> NumV 7))) (Some Map.empty) = Inr (- 1)
   \<and> fields_to_cmp [''size'', ''name''] (Some Map.empty) (Some (Map.empty(''size'' \<mapsto> NumV 7))) = Inr 1
   \<and> max_of None (Some 3) = Some 3"
  using null_algebra_laws[of "Some 3" 0 0 "Map.empty(''size'' \<mapsto> NumV 7)" "''size''" Map.empty "[''name'']"]
  by simp

text \<open>
  Claim C5, evaluated on the code. On the one-node list whose node has no \<^verbatim>\<open>lines\<close>
  attribute, \<^verbatim>\<open>best_of\<close> returns \<^verbatim>\<open>None\<close> but \<^verbatim>\<open>sum_of\<close> returns the number \<open>0\<close>: the
  sum of the empty sequence, where \<^verbatim>\<open>add\<close> and \<^verbatim>\<open>best_of\<close> keep the absence.
\<close>

theorem sum_of_absent_is_zero:
  "best_of [Map.empty] ''lines'' = None \<and> sum_of [Map.empty] ''lines'' = Some 0
   \<and> add None None = None"
  by (simp add: best_of_def sum_of_def present_attrs_def add_def presence_def)

section \<open>Correctness of the heap and of the selector\<close>

lemma mset_update2:
  "i < length h \<Longrightarrow> j < length h \<Longrightarrow> i \<noteq> j \<Longrightarrow> mset (h[i := h ! j, j := x]) = mset (h[i := x])"
  by (simp add: mset_update nth_list_update)

lemma siftdown_loop_length [simp]: "length (siftdown_loop h s pos x) = length h"
  by (induction h s pos x rule: siftdown_loop.induct)
     (subst siftdown_loop.simps, simp add: Let_def)

lemma siftdown_loop_mset:
  "pos < length h \<Longrightarrow> mset (siftdown_loop h s pos x) = mset (h[pos := x])"
proof (induction h s pos x rule: siftdown_loop.induct)
  case (1 heap startpos pos newitem)
  show ?case
  proof (cases "pos > startpos \<and> vw_lt newitem (heap ! ((pos - 1) div 2))")
    case True
    then have pp: "(pos - 1) div 2 < pos" by auto
    with 1 True have "mset (siftdown_loop (heap[pos := heap ! ((pos - 1) div 2)]) startpos ((pos - 1) div 2) newitem)
        = mset (heap[pos := heap ! ((pos - 1) div 2), (pos - 1) div 2 := newitem])"
      by simp
    also have "\<dots> = mset (heap[pos := newitem])"
      using pp 1(2) by (intro mset_update2) auto
    finally show ?thesis using True
      by (subst siftdown_loop.simps) (simp add: Let_def)
  next
    case False
    then show ?thesis
      by (subst siftdown_loop.simps) (auto simp: Let_def)
  qed
qed


lemma sd_inv_step:
  assumes "sd_inv h pos x" "0 < pos" "vw_lt x (h ! ((pos - 1) div 2))"
  shows "sd_inv (h[pos := h ! ((pos - 1) div 2)]) ((pos - 1) div 2) x"
proof -
  define pp where "pp = (pos - 1) div 2"
  define h' where "h' = h[pos := h ! pp]"
  have pp: "pp < pos" using assms(2) by (simp add: pp_def)
  have len: "pos < length h" using assms(1) by (simp add: sd_inv_def)
  have len': "length h' = length h" by (simp add: h'_def)
  have hp: "h' ! pos = h ! pp" using len by (simp add: h'_def)
  have hn: "\<And>k. k \<noteq> pos \<Longrightarrow> h' ! k = h ! k" by (simp add: h'_def)
  have a: "\<And>i. i < length h \<Longrightarrow> 0 < i \<Longrightarrow> i \<noteq> pos \<Longrightarrow> fst (h ! ((i - 1) div 2)) \<le> fst (h ! i)"
    using assms(1) by (simp add: sd_inv_def)
  have c: "\<And>c. c < length h \<Longrightarrow> 0 < c \<Longrightarrow> (c - 1) div 2 = pos \<Longrightarrow> fst (h ! pp) \<le> fst (h ! c)"
    using assms(1,2) by (simp add: sd_inv_def pp_def)
  have 1: "pp < length h'" using pp len len' by simp
  have 2: "fst (h' ! ((i - 1) div 2)) \<le> fst (h' ! i)"
    if "i < length h'" "0 < i" "i \<noteq> pp" for i
  proof (cases "i = pos")
    case True
    have "h' ! ((i - 1) div 2) = h ! pp" using True pp hn[of pp] by (simp add: pp_def)
    then show ?thesis using True hp by simp
  next
    case False
    show ?thesis
    proof (cases "(i - 1) div 2 = pos")
      case True
      have "fst (h ! pp) \<le> fst (h ! i)" using c[of i] that True len' by simp
      then show ?thesis using True hp hn[OF False] by simp
    next
      case F2: False
      have "fst (h ! ((i - 1) div 2)) \<le> fst (h ! i)" using a[of i] that False len' by simp
      then show ?thesis using hn[OF False] hn[OF F2] by simp
    qed
  qed
  have 3: "fst x \<le> fst (h' ! pp)"
  proof -
    have "h' ! pp = h ! pp" using pp hn[of pp] by simp
    then show ?thesis using assms(3) by (simp add: vw_lt_def pp_def)
  qed
  have 4: "fst (h' ! ((pp - 1) div 2)) \<le> fst (h' ! c)"
    if "c < length h'" "0 < c" "(c - 1) div 2 = pp" "0 < pp" for c
  proof -
    define gp where "gp = (pp - 1) div 2"
    have gp: "gp < pp" using that(4) by (simp add: gp_def)
    have e1: "fst (h ! gp) \<le> fst (h ! pp)"
      using a[of pp] pp len that(4) by (simp add: gp_def)
    have e2: "fst (h ! pp) \<le> fst (h' ! c)"
    proof (cases "c = pos")
      case True then show ?thesis using hp by simp
    next
      case False
      have "c \<noteq> pos" by (rule False)
      moreover have "fst (h ! ((c - 1) div 2)) \<le> fst (h ! c)"
        using a[of c] that(1,2) False len' by simp
      ultimately show ?thesis using hn[of c] that(3) by simp
    qed
    have "h' ! gp = h ! gp" using gp pp hn[of gp] by simp
    then show ?thesis using e1 e2 by (simp add: gp_def)
  qed
  have "sd_inv h' pp x"
    unfolding sd_inv_def using 1 2 3 4 by blast
  then show ?thesis by (simp add: h'_def pp_def)
qed

lemma sd_inv_final:
  assumes "sd_inv h pos x" "pos = 0 \<or> \<not> vw_lt x (h ! ((pos - 1) div 2))"
  shows "heap_inv (h[pos := x])"
  unfolding heap_inv_def
proof (intro allI impI)
  fix i assume i: "i < length (h[pos := x])" "0 < i"
  define h' where "h' = h[pos := x]"
  have len: "pos < length h" using assms(1) by (simp add: sd_inv_def)
  have hp: "h' ! pos = x" using len by (simp add: h'_def)
  have hn: "\<And>k. k \<noteq> pos \<Longrightarrow> h' ! k = h ! k" by (simp add: h'_def)
  have a: "\<And>i. i < length h \<Longrightarrow> 0 < i \<Longrightarrow> i \<noteq> pos \<Longrightarrow> fst (h ! ((i - 1) div 2)) \<le> fst (h ! i)"
    using assms(1) by (simp add: sd_inv_def)
  have b: "fst x \<le> fst (h ! pos)" using assms(1) by (simp add: sd_inv_def)
  have par: "(i - 1) div 2 < i" using i(2) by auto
  have "fst (h' ! ((i - 1) div 2)) \<le> fst (h' ! i)"
  proof (cases "i = pos")
    case True
    then have "\<not> vw_lt x (h ! ((pos - 1) div 2))" using assms(2) i(2) by auto
    moreover have "h' ! ((pos - 1) div 2) = h ! ((pos - 1) div 2)"
      using par True hn[of "(pos - 1) div 2"] by simp
    ultimately show ?thesis using True hp by (simp add: vw_lt_def)
  next
    case False
    have e: "fst (h ! ((i - 1) div 2)) \<le> fst (h ! i)" using a[of i] i False by simp
    show ?thesis
    proof (cases "(i - 1) div 2 = pos")
      case True
      then show ?thesis using e b hp hn[OF False] by simp
    next
      case F2: False
      then show ?thesis using e hn[OF False] hn[OF F2] by simp
    qed
  qed
  then show "fst (h[pos := x] ! ((i - 1) div 2)) \<le> fst (h[pos := x] ! i)"
    by (simp add: h'_def)
qed

lemma siftdown_loop_inv:
  "sd_inv h pos x \<Longrightarrow> heap_inv (siftdown_loop h 0 pos x)"
proof (induction h "0::nat" pos x rule: siftdown_loop.induct)
  case (1 heap pos newitem)
  show ?case
  proof (cases "0 < pos \<and> vw_lt newitem (heap ! ((pos - 1) div 2))")
    case True
    have st: "sd_inv (heap[pos := heap ! ((pos - 1) div 2)]) ((pos - 1) div 2) newitem"
      by (rule sd_inv_step[OF 1(2)]) (use True in blast)+
    have "heap_inv (siftdown_loop (heap[pos := heap ! ((pos - 1) div 2)]) 0 ((pos - 1) div 2) newitem)"
      by (rule 1(1)[OF _ refl refl _ st]) (use True in blast)+
    then show ?thesis using True
      by (subst siftdown_loop.simps) (simp add: Let_def)
  next
    case False
    have "heap_inv (heap[pos := newitem])"
      by (rule sd_inv_final[OF 1(2)]) (use False in auto)
    then show ?thesis using False
      by (subst siftdown_loop.simps) (auto simp: Let_def)
  qed
qed

lemma heappush_mset: "mset (heappush h x) = add_mset x (mset h)"
  by (simp add: heappush_def siftdown_def siftdown_loop_mset)

lemma heappush_length [simp]: "length (heappush h x) = Suc (length h)"
  by (simp add: heappush_def siftdown_def)

lemma heappush_inv:
  assumes "heap_inv h"
  shows "heap_inv (heappush h x)"
proof -
  define n where "n = length h"
  define h' where "h' = h @ [x]"
  have hn: "h' ! n = x" by (simp add: h'_def n_def)
  have ho: "\<And>k. k < n \<Longrightarrow> h' ! k = h ! k" by (simp add: h'_def n_def nth_append)
  have "sd_inv h' n (h' ! n)"
    unfolding sd_inv_def
  proof (intro conjI allI impI)
    show "n < length h'" by (simp add: h'_def n_def)
    show "fst (h' ! n) \<le> fst (h' ! n)" by simp
  next
    fix i assume i: "i < length h'" "0 < i" "i \<noteq> n"
    then have lt: "i < n" by (simp add: h'_def n_def)
    then have "(i - 1) div 2 < n" by auto
    then show "fst (h' ! ((i - 1) div 2)) \<le> fst (h' ! i)"
      using assms i lt ho by (simp add: heap_inv_def n_def)
  next
    fix c assume c: "c < length h'" "0 < c" "(c - 1) div 2 = n"
    then have "c \<le> n" by (simp add: h'_def n_def)
    moreover have "(c - 1) div 2 < c" using c(2) by auto
    ultimately have False using c(3) by simp
    then show "fst (h' ! ((n - 1) div 2)) \<le> fst (h' ! c)" ..
  qed
  then have "heap_inv (siftdown_loop h' 0 n (h' ! n))"
    by (rule siftdown_loop_inv)
  then show ?thesis
    by (simp add: heappush_def siftdown_def h'_def n_def)
qed


lemma su_inv_step:
  assumes inv: "su_inv h pos"
    and c: "c < length h" "0 < c" "(c - 1) div 2 = pos"
    and least: "\<And>d. d < length h \<Longrightarrow> 0 < d \<Longrightarrow> (d - 1) div 2 = pos \<Longrightarrow> fst (h ! c) \<le> fst (h ! d)"
  shows "su_inv (h[pos := h ! c]) c"
proof -
  define h' where "h' = h[pos := h ! c]"
  have pc: "pos < c" using c(2,3) by auto
  have len: "pos < length h" using pc c(1) by simp
  have len': "length h' = length h" by (simp add: h'_def)
  have hp: "h' ! pos = h ! c" using len by (simp add: h'_def)
  have hn: "\<And>k. k \<noteq> pos \<Longrightarrow> h' ! k = h ! k" by (simp add: h'_def)
  have a: "\<And>i. i < length h \<Longrightarrow> 0 < i \<Longrightarrow> (i - 1) div 2 \<noteq> pos \<Longrightarrow>
      fst (h ! ((i - 1) div 2)) \<le> fst (h ! i)"
    using inv by (simp add: su_inv_def)
  have b: "\<And>d. d < length h \<Longrightarrow> 0 < d \<Longrightarrow> (d - 1) div 2 = pos \<Longrightarrow> 0 < pos \<Longrightarrow>
      fst (h ! ((pos - 1) div 2)) \<le> fst (h ! d)"
    using inv by (simp add: su_inv_def)
  have 1: "fst (h' ! ((i - 1) div 2)) \<le> fst (h' ! i)"
    if i: "i < length h'" "0 < i" "(i - 1) div 2 \<noteq> c" for i
  proof (cases "i = pos")
    case True
    have "(pos - 1) div 2 < pos" using True i(2) by auto
    then have "h' ! ((pos - 1) div 2) = h ! ((pos - 1) div 2)" using hn by simp
    moreover have "fst (h ! ((pos - 1) div 2)) \<le> fst (h ! c)"
      using b[of c] c True i(2) by simp
    ultimately show ?thesis using True hp by simp
  next
    case False
    show ?thesis
    proof (cases "(i - 1) div 2 = pos")
      case True
      have "fst (h ! c) \<le> fst (h ! i)" using least[of i] i True len' by simp
      then show ?thesis using True hp hn[OF False] by simp
    next
      case F2: False
      have "fst (h ! ((i - 1) div 2)) \<le> fst (h ! i)" using a[of i] i F2 len' by simp
      then show ?thesis using hn[OF False] hn[OF F2] by simp
    qed
  qed
  have 2: "fst (h' ! ((c - 1) div 2)) \<le> fst (h' ! d)"
    if d: "d < length h'" "0 < d" "(d - 1) div 2 = c" for d
  proof -
    have "c < d" using d(2,3) by auto
    then have dp: "d \<noteq> pos" using pc by simp
    have "c \<noteq> pos" using pc by simp
    then have "fst (h ! ((d - 1) div 2)) \<le> fst (h ! d)"
      using a[of d] d len' by simp
    then show ?thesis using c(3) hp hn[OF dp] d(3) by simp
  qed
  have "su_inv h' c"
    unfolding su_inv_def using 1 2 by blast
  then show ?thesis by (simp add: h'_def)
qed

lemma siftup_loop_props:
  assumes "su_inv h pos" "pos < length h" "siftup_loop h (length h) pos = (h', p')"
  shows "su_inv h' p' \<and> p' < length h' \<and> length h' = length h \<and> length h \<le> 2 * p' + 1
         \<and> (\<forall>x. mset (h'[p' := x]) = mset (h[pos := x]))"
  using assms
proof (induction h "length h" pos arbitrary: h' p' rule: siftup_loop.induct)
  case (1 heap pos)
  define n where "n = length heap"
  show ?case
  proof (cases "2 * pos + 1 < n")
    case False
    then have "siftup_loop heap (length heap) pos = (heap, pos)"
      by (subst siftup_loop.simps) (simp add: Let_def n_def)
    then show ?thesis using 1(2,3,4) False by (simp add: n_def)
  next
    case True
    define c where "c = (if 2 * pos + 1 + 1 < length heap
                            \<and> \<not> vw_lt (heap ! (2 * pos + 1)) (heap ! (2 * pos + 1 + 1))
                         then 2 * pos + 1 + 1 else 2 * pos + 1)"
    define h1 where "h1 = heap[pos := heap ! c]"
    have c1: "c < n" using True by (simp add: c_def n_def)
    have c2: "0 < c" by (simp add: c_def)
    have c3: "(c - 1) div 2 = pos" by (simp add: c_def)
    have least: "fst (heap ! c) \<le> fst (heap ! d)"
      if d: "d < length heap" "0 < d" "(d - 1) div 2 = pos" for d
    proof -
      have "d = 2 * pos + 1 \<or> d = 2 * pos + 2" using d(2,3) by presburger
      then show ?thesis using d(1) by (auto simp: c_def vw_lt_def n_def)
    qed
    have inv1: "su_inv h1 c"
      unfolding h1_def by (rule su_inv_step[OF 1(2)]) (use c1 c2 c3 least in \<open>simp_all add: n_def\<close>)
    have eq: "siftup_loop heap (length heap) pos = siftup_loop h1 (length h1) c"
      using True by (subst siftup_loop.simps) (simp add: Let_def n_def c_def h1_def)
    have len1: "length heap = length h1" by (simp add: h1_def)
    have res: "su_inv h' p' \<and> p' < length h' \<and> length h' = length h1 \<and> length h1 \<le> 2 * p' + 1
         \<and> (\<forall>x. mset (h'[p' := x]) = mset (h1[c := x]))"
    proof (rule 1(1)[OF refl _ refl refl, folded c_def h1_def])
      show "2 * pos + 1 < length heap" using True by (simp add: n_def)
      show "length heap = length h1" by (rule len1)
      show "su_inv h1 c" by (rule inv1)
      show "c < length h1" using c1 by (simp add: h1_def n_def)
      show "siftup_loop h1 (length h1) c = (h', p')" using eq 1(4) by simp
    qed
    have pc: "pos \<noteq> c" "pos < length heap" "c < length heap"
      using c2 c3 c1 1(3) by (auto simp: n_def)
    have "mset (h1[c := x]) = mset (heap[pos := x])" for x
      unfolding h1_def using mset_update2[OF pc(2) pc(3) pc(1)] by simp
    then show ?thesis using res by (simp add: h1_def)
  qed
qed


lemma siftup_props:
  assumes "heap_inv h" "h \<noteq> []"
  shows "heap_inv (siftup (h[0 := x]) 0)"
    and "mset (siftup (h[0 := x]) 0) = add_mset x (mset h - {#h ! 0#})"
proof -
  define g where "g = h[0 := x]"
  obtain h' p' where lp: "siftup_loop g (length g) 0 = (h', p')"
    by (cases "siftup_loop g (length g) 0") auto
  have glen: "0 < length g" using assms(2) by (simp add: g_def)
  have g0: "g ! 0 = x" using assms(2) by (simp add: g_def)
  have gn: "\<And>k. 0 < k \<Longrightarrow> g ! k = h ! k" by (simp add: g_def)
  have "su_inv g 0"
    unfolding su_inv_def
  proof (intro conjI allI impI)
    fix i assume i: "i < length g" "0 < i" "(i - 1) div 2 \<noteq> 0"
    then have "fst (h ! ((i - 1) div 2)) \<le> fst (h ! i)"
      using assms(1) by (simp add: heap_inv_def g_def)
    then show "fst (g ! ((i - 1) div 2)) \<le> fst (g ! i)"
      using i gn by simp
  next
    fix c assume "(0::nat) < 0"
    then show "fst (g ! ((0 - 1) div 2)) \<le> fst (g ! c)" by simp
  qed
  from siftup_loop_props[OF this glen lp]
  have inv': "su_inv h' p'" and p': "p' < length h'" and len': "length h' = length g"
    and leaf: "length g \<le> 2 * p' + 1"
    and ms: "\<And>y. mset (h'[p' := y]) = mset (g[0 := y])"
    by auto
  define g2 where "g2 = h'[p' := x]"
  have g2p: "g2 ! p' = x" using p' by (simp add: g2_def)
  have g2n: "\<And>k. k \<noteq> p' \<Longrightarrow> g2 ! k = h' ! k" by (simp add: g2_def)
  have "sd_inv g2 p' (g2 ! p')"
    unfolding sd_inv_def
  proof (intro conjI allI impI)
    show "p' < length g2" using p' by (simp add: g2_def)
    show "fst (g2 ! p') \<le> fst (g2 ! p')" by simp
  next
    fix i assume i: "i < length g2" "0 < i" "i \<noteq> p'"
    have "(i - 1) div 2 \<noteq> p'"
    proof
      assume "(i - 1) div 2 = p'"
      then have "2 * p' + 1 \<le> i" using i(2) by presburger
      then show False using i(1) leaf len' by (simp add: g2_def)
    qed
    moreover from this have "fst (h' ! ((i - 1) div 2)) \<le> fst (h' ! i)"
      using inv' i by (simp add: su_inv_def g2_def)
    ultimately show "fst (g2 ! ((i - 1) div 2)) \<le> fst (g2 ! i)"
      using g2n i(3) by simp
  next
    fix c assume c: "c < length g2" "0 < c" "(c - 1) div 2 = p'"
    then have "2 * p' + 1 \<le> c" by presburger
    then have False using c(1) leaf len' by (simp add: g2_def)
    then show "fst (g2 ! ((p' - 1) div 2)) \<le> fst (g2 ! c)" ..
  qed
  then have R: "heap_inv (siftdown_loop g2 0 p' (g2 ! p'))"
    by (rule siftdown_loop_inv)
  have eq: "siftup g 0 = siftdown_loop g2 0 p' (g2 ! p')"
    using lp g0 by (simp add: siftup_def siftdown_def g2_def)
  show "heap_inv (siftup (h[0 := x]) 0)"
    using R eq by (simp add: g_def)
  have "mset (siftdown_loop g2 0 p' (g2 ! p')) = mset (g2[p' := g2 ! p'])"
    using p' by (intro siftdown_loop_mset) (simp add: g2_def)
  also have "\<dots> = mset g2" by simp
  also have "\<dots> = mset (g[0 := x])" using ms[of x] by (simp add: g2_def)
  also have "\<dots> = add_mset x (mset h - {#h ! 0#})"
    using assms(2) by (simp add: g_def mset_update)
  finally show "mset (siftup (h[0 := x]) 0) = add_mset x (mset h - {#h ! 0#})"
    using eq by (simp add: g_def)
qed

lemma heap_inv_min:
  assumes "heap_inv h"
  shows "i < length h \<Longrightarrow> fst (h ! 0) \<le> fst (h ! i)"
proof (induction i rule: less_induct)
  case (less i)
  show ?case
  proof (cases "i = 0")
    case True then show ?thesis by simp
  next
    case False
    then have p: "(i - 1) div 2 < i" by auto
    then have "fst (h ! 0) \<le> fst (h ! ((i - 1) div 2))"
      using less by simp
    moreover have "fst (h ! ((i - 1) div 2)) \<le> fst (h ! i)"
      using assms less(2) False by (simp add: heap_inv_def)
    ultimately show ?thesis by simp
  qed
qed

lemma heap_inv_Min:
  assumes "heap_inv h" "h \<noteq> []"
  shows "fst (h ! 0) = Min (set (map fst h))"
proof -
  have "fst (h ! 0) \<in> set (map fst h)" using assms(2) by (cases h) auto
  moreover have "fst (h ! 0) \<le> v" if "v \<in> set (map fst h)" for v
  proof -
    from that obtain i where "i < length h" "v = fst (h ! i)"
      by (auto simp: in_set_conv_nth)
    then show ?thesis using heap_inv_min[OF assms(1), of i] by simp
  qed
  ultimately show ?thesis
    by (intro Min_eqI[symmetric]) auto
qed


lemma heappushpop_inv: "heap_inv h \<Longrightarrow> heap_inv (fst (heappushpop h x))"
  by (simp add: heappushpop_def siftup_props(1))

lemma heappushpop_mset:
  "heap_inv h \<Longrightarrow> h \<noteq> [] \<Longrightarrow> vw_lt (h ! 0) x \<Longrightarrow>
     mset (fst (heappushpop h x)) = add_mset x (mset h - {#h ! 0#})"
  by (simp add: heappushpop_def siftup_props(2))

lemma heappushpop_reject: "\<not> (h \<noteq> [] \<and> vw_lt (h ! 0) x) \<Longrightarrow> fst (heappushpop h x) = h"
  by (auto simp: heappushpop_def)

lemma push_capacity [simp]: "capacity (push t v w) = capacity t"
  by (simp add: push_def)

lemma push_inv: "heap_inv (heap_list t) \<Longrightarrow> heap_inv (heap_list (push t v w))"
  by (simp add: push_def heappush_inv heappushpop_inv)

lemma push_not_full:
  "int (length (heap_list t)) < capacity t \<Longrightarrow> mset (held (push t v w)) = add_mset v (mset (held t))"
proof -
  assume "int (length (heap_list t)) < capacity t"
  then have "mset (heap_list (push t v w)) = add_mset (v, w) (mset (heap_list t))"
    by (simp add: push_def heappush_mset)
  then have "image_mset fst (mset (heap_list (push t v w))) = image_mset fst (add_mset (v, w) (mset (heap_list t)))"
    by simp
  then show ?thesis by (simp add: held_def)
qed

lemma push_full_admit:
  assumes "heap_inv (heap_list t)" "\<not> int (length (heap_list t)) < capacity t" "heap_list t \<noteq> []"
    "Min (set (held t)) < v"
  shows "mset (held (push t v w)) = add_mset v (mset (held t) - {#Min (set (held t))#})"
proof -
  define h where "h = heap_list t"
  have m: "fst (h ! 0) = Min (set (held t))"
    using heap_inv_Min[OF assms(1,3)] by (simp add: h_def held_def)
  have h0: "h ! 0 \<in># mset h" using assms(3) by (simp add: h_def)
  have "mset (heap_list (push t v w)) = add_mset (v, w) (mset h - {#h ! 0#})"
    using assms m by (simp add: push_def h_def[symmetric] heappushpop_mset vw_lt_def)
  then have "image_mset fst (mset (heap_list (push t v w))) = image_mset fst (add_mset (v, w) (mset h - {#h ! 0#}))"
    by simp
  also have "\<dots> = add_mset v (image_mset fst (mset h) - {#fst (h ! 0)#})"
    using h0 by (simp add: image_mset_Diff)
  finally show ?thesis using m by (simp add: held_def h_def)
qed

lemma push_full_reject:
  assumes "heap_inv (heap_list t)" "\<not> int (length (heap_list t)) < capacity t" "heap_list t \<noteq> []"
    "v \<le> Min (set (held t))"
  shows "heap_list (push t v w) = heap_list t"
proof -
  have "fst (heap_list t ! 0) = Min (set (held t))"
    using heap_inv_Min[OF assms(1,3)] by (simp add: held_def)
  then show ?thesis
    using assms by (simp add: push_def heappushpop_reject vw_lt_def)
qed


lemma ms1: "H \<subseteq># A \<Longrightarrow> add_mset v (H - {#m#}) \<subseteq># add_mset v A"
  by (simp add: subseteq_mset_def le_diff_conv trans_le_add1)

lemma ms2: "m \<in># H \<Longrightarrow> H \<subseteq># A \<Longrightarrow> add_mset v A - add_mset v (H - {#m#}) = add_mset m (A - H)"
proof -
  assume a: "m \<in># H" "H \<subseteq># A"
  have c: "\<And>a. count H a \<le> count A a" using a(2) by (simp add: subseteq_mset_def)
  have m: "1 \<le> count H m" using a(1) by (simp add: Suc_le_eq)
  show ?thesis
  proof (rule multiset_eqI)
    fix x
    show "count (add_mset v A - add_mset v (H - {#m#})) x = count (add_mset m (A - H)) x"
      using c[of x] m by (cases "x = m") auto
  qed
qed

lemma ms3: "H \<subseteq># A \<Longrightarrow> H \<subseteq># add_mset v A"
  by (simp add: subseteq_mset_def le_SucI)

lemma ms4: "H \<subseteq># A \<Longrightarrow> add_mset v A - H = add_mset v (A - H)"
proof -
  assume a: "H \<subseteq># A"
  have c: "\<And>a. count H a \<le> count A a" using a by (simp add: subseteq_mset_def)
  show ?thesis
    by (rule multiset_eqI) (use c in \<open>auto simp: Suc_diff_le\<close>)
qed

lemma ms5: "H \<subseteq># A \<Longrightarrow> size H = size A \<Longrightarrow> H = A"
  by (metis mset_subset_size nat_less_le subset_mset.less_le)

lemma held_length [simp]: "length (held t) = length (heap_list t)"
  by (simp add: held_def)

lemma sel_inv_push:
  assumes "sel_inv K t seen" "1 \<le> K"
  shows "sel_inv K (push t v w) (seen @ [v])"
proof -
  have cap: "capacity t = K" and hi: "heap_inv (heap_list t)"
    and len: "length (heap_list t) = min (nat K) (length seen)"
    and sub: "mset (held t) \<subseteq># mset seen"
    and top: "\<And>h a. h \<in># mset (held t) \<Longrightarrow> a \<in># mset seen - mset (held t) \<Longrightarrow> a \<le> h"
    using assms(1) by (auto simp: sel_inv_def)
  have hi': "heap_inv (heap_list (push t v w))" by (rule push_inv[OF hi])
  show ?thesis
  proof (cases "int (length (heap_list t)) < capacity t")
    case True
    then have ls: "length seen < nat K" using len cap by auto
    have ms: "mset (held (push t v w)) = add_mset v (mset (held t))"
      by (rule push_not_full[OF True])
    have "size (mset (held t)) = size (mset seen)" using len ls by simp
    then have eq: "mset (held t) = mset seen"
      using sub by (intro ms5) simp_all
    have l': "length (heap_list (push t v w)) = min (nat K) (length (seen @ [v]))"
      using True ls len by (simp add: push_def)
    show ?thesis
      unfolding sel_inv_def using cap hi' l' ms eq by simp
  next
    case False
    then have full: "length (heap_list t) = nat K" "nat K \<le> length seen"
      using len cap by auto
    then have ne: "heap_list t \<noteq> []" using assms(2) by auto
    have nes: "set (held t) \<noteq> {}" using ne by (simp add: held_def)
    define m where "m = Min (set (held t))"
    have m_in: "m \<in># mset (held t)" using nes by (simp add: m_def)
    have m_le: "\<And>h. h \<in># mset (held t) \<Longrightarrow> m \<le> h" by (simp add: m_def)
    have l': "length (heap_list (push t v w)) = min (nat K) (length (seen @ [v]))"
    proof -
      have "length (held (push t v w)) = length (held t)"
      proof (cases "m < v")
        case True
        have "mset (held (push t v w)) = add_mset v (mset (held t) - {#m#})"
          using push_full_admit[OF hi False ne] True by (simp add: m_def)
        then have "size (mset (held (push t v w))) = size (add_mset v (mset (held t) - {#m#}))"
          by simp
        moreover have "0 < length (heap_list t)" using ne by simp
        ultimately show ?thesis using m_in by (simp add: size_Diff_singleton)
      next
        case F: False
        then show ?thesis using push_full_reject[OF hi False ne, of v w] by (simp add: m_def held_def)
      qed
      then show ?thesis using full by simp
    qed
    show ?thesis
    proof (cases "m < v")
      case True
      have ms: "mset (held (push t v w)) = add_mset v (mset (held t) - {#m#})"
        using push_full_admit[OF hi False ne] True by (simp add: m_def)
      have s1: "mset (held (push t v w)) \<subseteq># mset (seen @ [v])"
        using ms1[OF sub, of v m] ms by simp
      have rest: "mset (seen @ [v]) - mset (held (push t v w)) = add_mset m (mset seen - mset (held t))"
      proof -
        show ?thesis using ms2[OF m_in sub, of v] ms by simp
      qed
      have t': "a \<le> h" if "h \<in># mset (held (push t v w))" "a \<in># mset (seen @ [v]) - mset (held (push t v w))" for h a
      proof -
        have a: "a = m \<or> a \<in># mset seen - mset (held t)" using that(2) rest by auto
        have am: "a \<le> m" using a top[OF m_in] by auto
        have h: "h = v \<or> h \<in># mset (held t)" using that(1) ms by (auto dest: in_diffD)
        then show ?thesis using am True m_le by force
      qed
      show ?thesis
        unfolding sel_inv_def using cap hi' l' s1 t' by auto
    next
      case F: False
      have same: "heap_list (push t v w) = heap_list t"
        using push_full_reject[OF hi False ne, of v w] F by (simp add: m_def)
      then have hs: "held (push t v w) = held t" by (simp add: held_def)
      have s1: "mset (held t) \<subseteq># mset (seen @ [v])"
        using ms3[OF sub, of v] by simp
      have rest: "mset (seen @ [v]) - mset (held t) = add_mset v (mset seen - mset (held t))"
        using ms4[OF sub, of v] by simp
      have t': "a \<le> h" if "h \<in># mset (held t)" "a \<in># mset (seen @ [v]) - mset (held t)" for h a
      proof -
        have "a = v \<or> a \<in># mset seen - mset (held t)" using that(2) rest by auto
        then show ?thesis using top[OF that(1)] F m_le[OF that(1)] by auto
      qed
      show ?thesis
        unfolding sel_inv_def using cap hi' l' s1 t' hs by auto
    qed
  qed
qed


lemma sel_inv_offer_all:
  "sel_inv K t seen \<Longrightarrow> 1 \<le> K \<Longrightarrow> sel_inv K (offer_all offers t) (seen @ map fst offers)"
proof (induction offers arbitrary: t seen)
  case Nil
  then show ?case by simp
next
  case (Cons o1 offers)
  obtain v w where o1: "o1 = (v, w)" by (cases o1)
  have "sel_inv K (push t v w) (seen @ [v])"
    by (rule sel_inv_push[OF Cons.prems])
  from Cons.IH[OF this Cons.prems(2)] show ?case
    by (simp add: o1)
qed

lemma sel_inv_empty: "sel_inv K \<lparr>capacity = K, heap_list = []\<rparr> []"
  by (simp add: sel_inv_def heap_inv_def held_def)

lemma sel_inv_run: "1 \<le> K \<Longrightarrow> sel_inv K (offer_all offers \<lparr>capacity = K, heap_list = []\<rparr>) (map fst offers)"
  using sel_inv_offer_all[OF sel_inv_empty, of K offers] by simp

lemma sub_distinct:
  assumes "mset hs \<subseteq># mset seen" "distinct seen"
  shows "distinct hs"
  unfolding distinct_count_atmost_1
proof (intro allI)
  fix a
  have 1: "count (mset hs) a \<le> count (mset seen) a"
    by (rule mset_subset_eq_count[OF assms(1)])
  have 2: "count (mset seen) a \<le> 1"
    using assms(2) by (simp add: distinct_count_atmost_1)
  show "count (mset hs) a = (if a \<in> set hs then 1 else 0)"
  proof (cases "a \<in> set hs")
    case True
    then have "count (mset hs) a \<noteq> 0" by (simp add: count_eq_zero_iff)
    then have "count (mset hs) a = 1" using 1 2 by linarith
    then show ?thesis using True by (simp only: if_True)
  next
    case False
    then show ?thesis by (simp add: count_eq_zero_iff)
  qed
qed

lemma largest_unique:
  assumes d: "distinct seen" and len: "k \<le> length seen"
    and sub: "mset hs \<subseteq># mset seen" and l: "length hs = k"
    and top: "\<forall>h \<in># mset hs. \<forall>a \<in># mset seen - mset hs. a \<le> h"
  shows "mset hs = mset (take k (rev (sort seen)))"
proof -
  define S where "S = sort seen"
  define n where "n = length seen"
  define j where "j = n - k"
  have dS: "distinct S" and sS: "sorted S" and setS: "set S = set seen" and lS: "length S = n"
    using d by (simp_all add: S_def n_def)
  have tk: "take k (rev S) = rev (drop j S)"
    using len lS by (simp add: take_rev n_def j_def)
  define T where "T = set (drop j S)"
  define V where "V = set hs"
  have dh: "distinct hs" by (rule sub_distinct[OF sub d])
  have cV: "card V = k" using dh l by (simp add: V_def distinct_card)
  have cT: "card T = k"
    using dS len lS by (simp add: T_def distinct_card n_def j_def)
  have VA: "V \<subseteq> set seen" using sub by (auto simp: V_def dest: mset_subset_eqD)
  have TA: "T \<subseteq> set seen" using setS by (auto simp: T_def dest: in_set_dropD)
  have rest: "set_mset (mset seen - mset hs) = set seen - V"
  proof -
    have "mset seen - mset hs = mset_set (set seen) - mset_set V"
      using d dh by (simp add: V_def mset_set_set)
    also have "\<dots> = mset_set (set seen - V)"
      using VA by (simp add: mset_set_Diff)
    finally show ?thesis by simp
  qed
  have topV: "a < h" if "h \<in> V" "a \<in> set seen" "a \<notin> V" for h a
  proof -
    have "h \<in># mset hs" using that(1) by (simp add: V_def)
    moreover have "a \<in># mset seen - mset hs" using that(2,3) rest by simp
    ultimately have "a \<le> h" using top by blast
    then show ?thesis using that by (cases "a = h") auto
  qed
  have topT: "a < t" if "t \<in> T" "a \<in> set seen" "a \<notin> T" for t a
  proof -
    have "sorted (take j S @ drop j S)" using sS by simp
    then have so: "\<forall>x\<in>set (take j S). \<forall>y\<in>set (drop j S). x \<le> y"
      unfolding sorted_append by blast
    have "set S = set (take j S) \<union> set (drop j S)"
      by (metis append_take_drop_id set_append)
    then have "a \<in> set (take j S)" using that(2,3) setS by (simp add: T_def)
    then have "a \<le> t" using so that(1) by (simp add: T_def)
    then show ?thesis using that by (cases "a = t") auto
  qed
  have "V = T"
  proof (rule ccontr)
    assume ne: "V \<noteq> T"
    have fV: "finite V" and fT: "finite T" by (simp_all add: V_def T_def)
    have "\<not> V \<subseteq> T" using ne card_subset_eq[OF fT, of V] cV cT by auto
    then obtain h where h: "h \<in> V" "h \<notin> T" by blast
    have "\<not> T \<subseteq> V" using ne card_subset_eq[OF fV, of T] cV cT by auto
    then obtain t where t: "t \<in> T" "t \<notin> V" by blast
    have "h \<in> set seen" "t \<in> set seen" using h(1) t(1) VA TA by blast+
    then have "h < t" "t < h" using topT[OF t(1) _ h(2)] topV[OF h(1) _ t(2)] by blast+
    then show False by simp
  qed
  moreover have "distinct (take k (rev S))" using dS by simp
  moreover have "set (take k (rev S)) = T" using tk by (simp add: T_def)
  ultimately have "mset hs = mset (take k (rev S))"
    using dh by (simp add: set_eq_iff_mset_eq_distinct[symmetric] V_def)
  then show ?thesis by (simp add: S_def)
qed


lemma sel_inv_length:
  "sel_inv K t seen \<Longrightarrow> 1 \<le> K \<Longrightarrow> int (length (heap_list t)) = min K (int (length seen))"
  by (auto simp: sel_inv_def)

text \<open>
  Claim C1. Let the selector have capacity \<open>K \<ge> 1\<close> and start empty. After a stream of
  \<open>N \<ge> K\<close> offers with pairwise distinct values, the values it holds are exactly the \<open>K\<close>
  largest values offered (the first \<open>K\<close> of the values sorted in descending order). After
  any stream \<open>pre\<close> of offers it holds \<open>min K (length pre)\<close> items; while it holds fewer than
  \<open>K\<close>, \<^verbatim>\<open>next_to_pop\<close> is \<^verbatim>\<open>None\<close>; once it holds \<open>K\<close>, \<^verbatim>\<open>next_to_pop\<close> is the minimum
  held value; and pushing onto such a full selector a value that is at most the minimum
  held value leaves the multiset of held values as it was.
\<close>

theorem top_k_selector_correct:
  assumes "1 \<le> K"
  shows "(distinct (map fst offers) \<and> K \<le> int (length offers) \<longrightarrow>
            mset (held (offer_all offers \<lparr>capacity = K, heap_list = []\<rparr>))
              = mset (take (nat K) (rev (sort (map fst offers)))))
       \<and> int (length (heap_list (offer_all pre \<lparr>capacity = K, heap_list = []\<rparr>)))
            = min K (int (length pre))
       \<and> (int (length (heap_list (offer_all pre \<lparr>capacity = K, heap_list = []\<rparr>))) < K \<longrightarrow>
            next_to_pop (offer_all pre \<lparr>capacity = K, heap_list = []\<rparr>) = Inr None)
       \<and> (int (length (heap_list (offer_all pre \<lparr>capacity = K, heap_list = []\<rparr>))) = K \<longrightarrow>
            next_to_pop (offer_all pre \<lparr>capacity = K, heap_list = []\<rparr>)
              = Inr (Some (Min (set (held (offer_all pre \<lparr>capacity = K, heap_list = []\<rparr>))))))
       \<and> (int (length (heap_list (offer_all pre \<lparr>capacity = K, heap_list = []\<rparr>))) = K
            \<and> v \<le> Min (set (held (offer_all pre \<lparr>capacity = K, heap_list = []\<rparr>))) \<longrightarrow>
            mset (held (push (offer_all pre \<lparr>capacity = K, heap_list = []\<rparr>) v w))
              = mset (held (offer_all pre \<lparr>capacity = K, heap_list = []\<rparr>)))"
proof -
  define S where "S = offer_all pre \<lparr>capacity = K, heap_list = []\<rparr>"
  have inv: "sel_inv K S (map fst pre)"
    unfolding S_def by (rule sel_inv_run[OF assms])
  have cap: "capacity S = K" and hi: "heap_inv (heap_list S)"
    using inv by (simp_all add: sel_inv_def)
  have 1: "mset (held (offer_all offers \<lparr>capacity = K, heap_list = []\<rparr>))
              = mset (take (nat K) (rev (sort (map fst offers))))"
    if d: "distinct (map fst offers)" and n: "K \<le> int (length offers)"
  proof -
    define R where "R = offer_all offers \<lparr>capacity = K, heap_list = []\<rparr>"
    have r: "sel_inv K R (map fst offers)"
      unfolding R_def by (rule sel_inv_run[OF assms])
    have k: "nat K \<le> length (map fst offers)" using n by simp
    have "mset (held R) = mset (take (nat K) (rev (sort (map fst offers))))"
    proof (rule largest_unique[OF d k])
      show "mset (held R) \<subseteq># mset (map fst offers)" using r by (simp add: sel_inv_def)
      show "length (held R) = nat K" using r k by (simp add: sel_inv_def)
      show "\<forall>h\<in>#mset (held R). \<forall>a\<in>#mset (map fst offers) - mset (held R). a \<le> h"
        using r by (simp add: sel_inv_def)
    qed
    then show ?thesis by (simp add: R_def)
  qed
  have 2: "int (length (heap_list S)) = min K (int (length pre))"
    using sel_inv_length[OF inv assms] by simp
  have 3: "next_to_pop S = Inr None" if "int (length (heap_list S)) < K"
    using that cap by (simp add: next_to_pop_def)
  have 4: "next_to_pop S = Inr (Some (Min (set (held S))))" if "int (length (heap_list S)) = K"
  proof -
    have ne: "heap_list S \<noteq> []" using that assms by auto
    then obtain x xs where c: "heap_list S = x # xs" by (cases "heap_list S") auto
    have "fst x = Min (set (held S))"
      using heap_inv_Min[OF hi ne] c by (simp add: held_def)
    then show ?thesis using that cap c by (simp add: next_to_pop_def)
  qed
  have 5: "mset (held (push S v w)) = mset (held S)"
    if "int (length (heap_list S)) = K \<and> v \<le> Min (set (held S))"
  proof -
    have ne: "heap_list S \<noteq> []" using that assms by auto
    have nf: "\<not> int (length (heap_list S)) < capacity S" using that cap by simp
    have "heap_list (push S v w) = heap_list S"
      by (rule push_full_reject[OF hi nf ne]) (use that in simp)
    then show ?thesis by (simp add: held_def)
  qed
  show ?thesis
    using 1 2 3 4 5 unfolding S_def by blast
qed



theorem top_k_selector_correct_witness:
  "(1::int) \<le> 2
   \<and> distinct (map fst [(3::int, ''a''), (9, ''b''), (1, ''c''), (7, ''d'')])
   \<and> 2 \<le> int (length [(3::int, ''a''), (9, ''b''), (1, ''c''), (7, ''d'')])
   \<and> mset (held (offer_all [(3, ''a''), (9, ''b''), (1, ''c''), (7, ''d'')] \<lparr>capacity = 2, heap_list = []\<rparr>))
        = {#9, 7#}
   \<and> next_to_pop (offer_all [(3, ''a'')] \<lparr>capacity = 2, heap_list = []\<rparr>) = Inr None
   \<and> next_to_pop (offer_all [(3, ''a''), (9, ''b''), (1, ''c''), (7, ''d'')] \<lparr>capacity = 2, heap_list = []\<rparr>)
        = Inr (Some 7)
   \<and> mset (held (push (offer_all [(3, ''a''), (9, ''b''), (1, ''c''), (7, ''d'')]
                          \<lparr>capacity = 2, heap_list = []\<rparr>) 5 ''e''))
        = {#7, 9#}"
proof -
  have S1: "offer_all [(3, ''a'')] \<lparr>capacity = 2, heap_list = []\<rparr>
              = \<lparr>capacity = 2, heap_list = [(3, ''a'')]\<rparr>"
    by code_simp
  have S4: "offer_all [(3, ''a''), (9, ''b''), (1, ''c''), (7, ''d'')] \<lparr>capacity = 2, heap_list = []\<rparr>
              = \<lparr>capacity = 2, heap_list = [(7, ''d''), (9, ''b'')]\<rparr>"
    by code_simp
  have k: "(1::int) \<le> 2" by simp
  note A = top_k_selector_correct[OF k, of "[(3, ''a''), (9, ''b''), (1, ''c''), (7, ''d'')]"
      "[(3, ''a''), (9, ''b''), (1, ''c''), (7, ''d'')]" 5 "''e''"]
  note B = top_k_selector_correct[OF k, of "[]" "[(3, ''a'')]" 0 "''e''"]
  show ?thesis
    unfolding S1 S4 using A[unfolded S1 S4] B[unfolded S1 S4] by (simp add: held_def)
qed

section \<open>The walk\<close>

lemma dirs_loop_visit:
  "\<not> is_link d \<Longrightarrow>
   dirs_loop cfg level (d # ds) (a, children, st) =
     (case visit_dir cfg level d st of
        Inl e \<Rightarrow> Inl e
      | Inr (da, dchildren, st') \<Rightarrow>
          (case dir_link cfg d da dchildren (a, children, st') of
             Inl e \<Rightarrow> Inl e
           | Inr acc' \<Rightarrow> dirs_loop cfg level ds acc'))"
  by (subst dirs_loop.simps) (simp add: visit_dir_def)

lemma case_InrE:
  "(case x of Inl e \<Rightarrow> False | Inr (a, ch, st) \<Rightarrow> P a ch st) \<Longrightarrow>
   \<exists>a ch st. x = Inr (a, ch, st) \<and> P a ch st"
  by (auto split: sum.splits prod.splits)

lemma next_to_pop_total: "1 \<le> capacity t \<Longrightarrow> \<exists>threshold. next_to_pop t = Inr threshold"
  by (cases "heap_list t") (auto simp: next_to_pop_def)

text \<open>
  Claim C10. In top-mode, a file whose ranking value is absent satisfies the skip test
  \<^verbatim>\<open>le(val, threshold)\<close> for every threshold, present or absent, so the step of the file loop
  leaves the selector, the children and the aggregates of the parent as they were: the
  file is neither pushed nor linked. (The capacity is at least one, so that reading
  \<^verbatim>\<open>next_to_pop\<close> does not raise.)
\<close>

theorem absent_metric_never_offered:
  assumes "top_mode cfg = Some m" "f_attr m f = None" "1 \<le> capacity (top_heap st)"
  shows "le (f_attr m f) threshold \<and> file_step cfg f (a, children, st) = Inr (a, children, st)"
proof -
  obtain thr where "next_to_pop (top_heap st) = Inr thr"
    using next_to_pop_total[OF assms(3)] by blast
  then show ?thesis
    using assms(1,2) le_absent_left by (simp add: file_step_def)
qed

theorem absent_metric_never_offered_witness:
  "top_mode (default_config\<lparr>top_mode := Some Lines\<rparr>) = Some Lines
   \<and> f_attr Lines (file_entry ''a.bin'' 100 None ''0cc175b9c0f1b6a831c399e269772661'') = None
   \<and> 1 \<le> capacity (top_heap (initial_state 3))
   \<and> next_to_pop (top_heap (initial_state 3)) = Inr None
   \<and> file_step (default_config\<lparr>top_mode := Some Lines\<rparr>)
        (file_entry ''a.bin'' 100 None ''0cc175b9c0f1b6a831c399e269772661'')
        (entered (default_config\<lparr>top_mode := Some Lines\<rparr>) (dir_entry ''root'' (Inr [])), [], initial_state 3)
      = Inr (entered (default_config\<lparr>top_mode := Some Lines\<rparr>) (dir_entry ''root'' (Inr [])), [], initial_state 3)"
  using absent_metric_never_offered[of "default_config\<lparr>top_mode := Some Lines\<rparr>" Lines
      "file_entry ''a.bin'' 100 None ''0cc175b9c0f1b6a831c399e269772661''" "initial_state 3" None
      "entered (default_config\<lparr>top_mode := Some Lines\<rparr>) (dir_entry ''root'' (Inr []))" "[]"]
  by (simp add: default_config_def file_entry_def f_attr_def plain_attr_def lines_def is_file_def is_link_def
      initial_state_def next_to_pop_def)

text \<open>
  Claim C8. Let \<open>d\<close> be a subdirectory that is not a link and whose visit returned the
  aggregates \<open>da\<close> and children \<open>dchildren\<close>. If \<open>d\<close> fails the post-filter, or has no
  descendant file and no descendant directory while \<^verbatim>\<open>always_show_dirs\<close> is off, the loop
  goes on to the remaining subdirectories with the children and the aggregates of the
  parent unchanged.
\<close>

theorem pruned_directory_contributes_nothing:
  assumes "\<not> is_link d" "visit_dir cfg level d st = Inr (da, dchildren, st')"
    "\<not> dpost cfg (Dir d da dchildren) \<or> (\<not> always_show_dirs cfg \<and> fcount da = 0 \<and> dcount da = 0)"
  shows "dir_link cfg d da dchildren (a, children, st') = Inr (a, children, st')
       \<and> dirs_loop cfg level (d # ds) (a, children, st) = dirs_loop cfg level ds (a, children, st')"
proof -
  have 1: "dir_link cfg d da dchildren (a, children, st') = Inr (a, children, st')"
    using assms(3) by (auto simp: dir_link_def)
  then show ?thesis
    using assms(2) by (simp add: dirs_loop_visit[OF assms(1)])
qed

lemma gather_listing_failed:
  "listdir d = Inl message \<Longrightarrow>
   gather cfg d level st =
     Inr (entered cfg d, [], warning_print cfg message (st\<lparr>level_reached := max level (level_reached st)\<rparr>))"
  by (subst gather.simps) (simp add: entered_def Let_def)

lemma gather_empty_listing:
  "listdir d = Inr [] \<Longrightarrow>
   gather cfg d level st = Inr (entered cfg d, [], st\<lparr>level_reached := max level (level_reached st)\<rparr>)"
  by (subst gather.simps) (simp add: entered_def Let_def)

lemma entered_fields:
  "fcount (entered cfg d) = 0" "dcount (entered cfg d) = 0"
  "blines (entered cfg d) = None" "rlines (entered cfg d) = None"
  "bsize (entered cfg d) = Some (st_size d)" "rsize (entered cfg d) = Some (st_size d)"
  "batime (entered cfg d) = Some (st_atime d)" "bbtime (entered cfg d) = Some (st_btime d)"
  "bctime (entered cfg d) = Some (st_ctime d)" "bmtime (entered cfg d) = Some (st_mtime d)"
  "ignore (entered cfg d) = False"
  "top_mode cfg \<noteq> None \<Longrightarrow> top_val (entered cfg d) \<noteq> Unset"
  by (auto simp: entered_def own_stats_def split: option.splits)

lemma dir_link_no_error:
  assumes "rsize a \<noteq> None" "rsize da \<noteq> None"
    "top_mode cfg \<noteq> None \<longrightarrow> top_val a \<noteq> Unset \<and> top_val da \<noteq> Unset \<and> 1 \<le> capacity (top_heap st)"
    "has_child_set a"
  shows "\<exists>acc'. dir_link cfg d da dchildren (a, children, st) = Inr acc'"
proof -
  obtain r rd where r: "rsize a = Some r" "rsize da = Some rd"
    using assms(1,2) by auto
  have add: "\<exists>acc'. dir_add d da dchildren (a\<lparr>top_val := tv\<rparr>, children, st) = Inr acc'" for tv
    using r assms(4) by (simp add: dir_add_def iadd_def Let_def)
  have add0: "\<exists>acc'. dir_add d da dchildren (a, children, st) = Inr acc'"
    using r assms(4) by (simp add: dir_add_def iadd_def Let_def)
  show ?thesis
  proof (cases "top_mode cfg")
    case None
    then show ?thesis using add0 by (simp add: dir_link_def)
  next
    case (Some m)
    then obtain thr dv rv where "next_to_pop (top_heap st) = Inr thr"
      "top_val da = Assigned dv" "top_val a = Assigned rv"
      using assms(3) next_to_pop_total[of "top_heap st"]
      by (cases "top_val da"; cases "top_val a") auto
    then show ?thesis using Some add[of "Assigned (max_of dv rv)"] by (simp add: dir_link_def)
  qed
qed

text \<open>
  Claim C9. If \<^verbatim>\<open>os.listdir\<close> raises \<^verbatim>\<open>OSError\<close> on \<open>d\<close>, \<^verbatim>\<open>_gather\<close> returns normally, with
  no children and with the own stats of \<open>d\<close> as aggregates; the message is appended to the
  warnings exactly when warnings are on; and in the loop of a parent that has its set of
  children and whose total size is set (and, in top-mode, whose \<^verbatim>\<open>top_val\<close> is set, with a
  capacity of at least one), as is the case of every directory that \<^verbatim>\<open>_gather\<close> has entered,
  linking \<open>d\<close> does not raise either, and the loop goes on with the remaining
  subdirectories.
\<close>

theorem listing_failure_is_soft:
  assumes "listdir d = Inl message"
  shows "gather cfg d level st =
           Inr (entered cfg d, [],
                warning_print cfg message (st\<lparr>level_reached := max level (level_reached st)\<rparr>))
       \<and> fcount (entered cfg d) = 0 \<and> dcount (entered cfg d) = 0
       \<and> blines (entered cfg d) = None \<and> rlines (entered cfg d) = None
       \<and> bsize (entered cfg d) = Some (st_size d) \<and> rsize (entered cfg d) = Some (st_size d)
       \<and> batime (entered cfg d) = Some (st_atime d) \<and> bbtime (entered cfg d) = Some (st_btime d)
       \<and> bctime (entered cfg d) = Some (st_ctime d) \<and> bmtime (entered cfg d) = Some (st_mtime d)
       \<and> warnings (warning_print cfg message (st\<lparr>level_reached := max level (level_reached st)\<rparr>))
            = (if warnings_on cfg then warnings st @ [message] else warnings st)
       \<and> (\<not> is_link d \<and> level < access_level cfg \<and> has_child_set a \<and> rsize a \<noteq> None
            \<and> (top_mode cfg \<noteq> None \<longrightarrow> top_val a \<noteq> Unset \<and> 1 \<le> capacity (top_heap st)) \<longrightarrow>
            (\<exists>acc'. dir_link cfg d (entered cfg d) []
                       (a, children,
                        warning_print cfg message (st\<lparr>level_reached := max (level + 1) (level_reached st)\<rparr>))
                     = Inr acc'
                  \<and> dirs_loop cfg level (d # ds) (a, children, st) = dirs_loop cfg level ds acc'))"
proof -
  define st1 where "st1 = warning_print cfg message (st\<lparr>level_reached := max (level + 1) (level_reached st)\<rparr>)"
  have g: "gather cfg d lv st =
           Inr (entered cfg d, [],
                warning_print cfg message (st\<lparr>level_reached := max lv (level_reached st)\<rparr>))" for lv
    by (rule gather_listing_failed[OF assms])
  have w: "warnings (warning_print cfg message (st\<lparr>level_reached := max level (level_reached st)\<rparr>))
            = (if warnings_on cfg then warnings st @ [message] else warnings st)"
    by (simp add: warning_print_def)
  have c: "\<exists>acc'. dir_link cfg d (entered cfg d) [] (a, children, st1) = Inr acc'
                  \<and> dirs_loop cfg level (d # ds) (a, children, st) = dirs_loop cfg level ds acc'"
    if h: "\<not> is_link d \<and> level < access_level cfg \<and> has_child_set a \<and> rsize a \<noteq> None
            \<and> (top_mode cfg \<noteq> None \<longrightarrow> top_val a \<noteq> Unset \<and> 1 \<le> capacity (top_heap st))"
  proof -
    have cap: "capacity (top_heap st1) = capacity (top_heap st)"
      by (simp add: st1_def warning_print_def)
    have "\<exists>acc'. dir_link cfg d (entered cfg d) [] (a, children, st1) = Inr acc'"
      by (rule dir_link_no_error) (use h cap entered_fields(6,12)[of cfg d] in auto)
    then obtain acc' where l: "dir_link cfg d (entered cfg d) [] (a, children, st1) = Inr acc'" ..
    have v: "visit_dir cfg level d st = Inr (entered cfg d, [], st1)"
      using h g[of "level + 1"] by (simp add: visit_dir_def st1_def)
    have "dirs_loop cfg level (d # ds) (a, children, st) = dirs_loop cfg level ds acc'"
      using h by (simp add: dirs_loop_visit v l)
    then show ?thesis using l by blast
  qed
  show ?thesis
    using g[of level] w c entered_fields[of cfg d] unfolding st1_def by blast
qed


theorem pruned_directory_contributes_nothing_witness:
  "\<not> is_link (dir_entry ''empty'' (Inr []))
   \<and> visit_dir (default_config\<lparr>always_show_dirs := False\<rparr>) 1 (dir_entry ''empty'' (Inr [])) (initial_state 1)
       = Inr (own_stats (dir_entry ''empty'' (Inr [])), [], (initial_state 1)\<lparr>level_reached := 2\<rparr>)
   \<and> \<not> always_show_dirs (default_config\<lparr>always_show_dirs := False\<rparr>)
   \<and> fcount (own_stats (dir_entry ''empty'' (Inr []))) = 0
   \<and> dcount (own_stats (dir_entry ''empty'' (Inr []))) = 0
   \<and> dirs_loop (default_config\<lparr>always_show_dirs := False\<rparr>) 1 [dir_entry ''empty'' (Inr [])]
        (own_stats (dir_entry ''root'' (Inr [])), [], initial_state 1)
       = Inr (own_stats (dir_entry ''root'' (Inr [])), [], (initial_state 1)\<lparr>level_reached := 2\<rparr>)"
proof -
  let ?cfg = "default_config\<lparr>always_show_dirs := False\<rparr>"
  let ?d = "dir_entry ''empty'' (Inr [])"
  have l: "\<not> is_link ?d" by (simp add: is_link_def dir_entry_def)
  have v: "visit_dir ?cfg 1 ?d (initial_state 1)
       = Inr (own_stats ?d, [], (initial_state 1)\<lparr>level_reached := 2\<rparr>)"
    by (simp add: visit_dir_def default_config_def gather_empty_listing dir_entry_def entered_def
        initial_state_def)
  have p: "\<not> dpost ?cfg (Dir ?d (own_stats ?d) [])
     \<or> (\<not> always_show_dirs ?cfg \<and> fcount (own_stats ?d) = 0 \<and> dcount (own_stats ?d) = 0)"
    by (simp add: own_stats_def)
  show ?thesis
    using pruned_directory_contributes_nothing[OF l v p,
        of "own_stats (dir_entry ''root'' (Inr []))" "[]" "[]"] l v
    by (simp add: own_stats_def)
qed

theorem listing_failure_is_soft_witness:
  "listdir (dir_entry ''locked'' (Inl ''[Errno 13] Permission denied'')) = Inl ''[Errno 13] Permission denied''
   \<and> gather default_config (dir_entry ''locked'' (Inl ''[Errno 13] Permission denied'')) 1 (initial_state 1)
       = Inr (own_stats (dir_entry ''locked'' (Inl ''[Errno 13] Permission denied'')), [],
              (initial_state 1)\<lparr>level_reached := 1, warnings := [''[Errno 13] Permission denied'']\<rparr>)
   \<and> \<not> is_link (dir_entry ''locked'' (Inl ''[Errno 13] Permission denied''))
   \<and> 1 < access_level default_config
   \<and> has_child_set (own_stats (dir_entry ''root'' (Inr [])))
   \<and> rsize (own_stats (dir_entry ''root'' (Inr []))) \<noteq> None
   \<and> top_mode default_config = None
   \<and> (\<exists>acc'. dirs_loop default_config 1
                [dir_entry ''locked'' (Inl ''[Errno 13] Permission denied''), sub_dir]
                (own_stats (dir_entry ''root'' (Inr [])), [], initial_state 1)
              = dirs_loop default_config 1 [sub_dir] acc')"
proof -
  let ?d = "dir_entry ''locked'' (Inl ''[Errno 13] Permission denied'')"
  have l: "listdir ?d = Inl ''[Errno 13] Permission denied''"
    by (simp add: dir_entry_def)
  note T = listing_failure_is_soft[OF l, of default_config 1 "initial_state 1"
      "own_stats (dir_entry ''root'' (Inr []))" "[]" "[sub_dir]"]
  have h: "\<not> is_link ?d \<and> 1 < access_level default_config
      \<and> has_child_set (own_stats (dir_entry ''root'' (Inr [])))
      \<and> rsize (own_stats (dir_entry ''root'' (Inr []))) \<noteq> None \<and> top_mode default_config = None"
    by (simp add: is_link_def is_dir_def dir_entry_def default_config_def own_stats_def)
  have e: "entered default_config ?d = own_stats ?d"
    by (simp add: entered_def default_config_def)
  have w: "warning_print default_config ''[Errno 13] Permission denied''
             ((initial_state 1)\<lparr>level_reached := max 1 (level_reached (initial_state 1))\<rparr>)
           = (initial_state 1)\<lparr>level_reached := 1, warnings := [''[Errno 13] Permission denied'']\<rparr>"
    by (simp add: warning_print_def default_config_def initial_state_def)
  note C = T[THEN conjunct2, THEN conjunct2, THEN conjunct2, THEN conjunct2, THEN conjunct2,
      THEN conjunct2, THEN conjunct2, THEN conjunct2, THEN conjunct2, THEN conjunct2,
      THEN conjunct2, THEN conjunct2, THEN mp]
  have "\<exists>acc'. dir_link default_config ?d (entered default_config ?d) []
                 (own_stats (dir_entry ''root'' (Inr [])), [],
                  warning_print default_config ''[Errno 13] Permission denied''
                    ((initial_state 1)\<lparr>level_reached := max (1 + 1) (level_reached (initial_state 1))\<rparr>))
               = Inr acc'
            \<and> dirs_loop default_config 1 [?d, sub_dir]
                (own_stats (dir_entry ''root'' (Inr [])), [], initial_state 1)
              = dirs_loop default_config 1 [sub_dir] acc'"
    by (rule C) (use h in simp)
  then have c: "\<exists>acc'. dirs_loop default_config 1 [?d, sub_dir]
                (own_stats (dir_entry ''root'' (Inr [])), [], initial_state 1)
              = dirs_loop default_config 1 [sub_dir] acc'"
    by (elim exE conjE) (rule exI)
  have g: "gather default_config ?d 1 (initial_state 1)
       = Inr (own_stats ?d, [],
              (initial_state 1)\<lparr>level_reached := 1, warnings := [''[Errno 13] Permission denied'']\<rparr>)"
    using T[THEN conjunct1] e w by simp
  show ?thesis
    using l g h c by simp
qed




lemma le_absent_threshold: "le (Some x) None = False"
  by (simp add: le_def presence_def)





lemma max_of_present: "max_of (Some x) (Some y) = Some (max x y)"
  by (auto simp: max_of_def lt_def presence_def)

lemma file_link_sizes:
  assumes "file_link cfg f (a, children, st) = Inr (a', children', st')"
    "rsize a = Some r" "bsize a = Some b"
  shows "children' = children @ [Leaf f] \<and> rsize a' = Some (r + st_size f)
       \<and> bsize a' = Some (max b (st_size f))"
  using assms
  by (cases "read_lines cfg"; cases "has_child_set a")
     (auto simp: file_link_def iadd_def Let_def max_of_present max.commute)

lemma file_step_sizes:
  assumes "file_step cfg f (a, children, st) = Inr (a', children', st')"
    "rsize a = Some r" "bsize a = Some b"
  shows "(children' = children \<and> rsize a' = Some r \<and> bsize a' = Some b)
       \<or> (children' = children @ [Leaf f] \<and> rsize a' = Some (r + st_size f)
           \<and> bsize a' = Some (max b (st_size f)))"
proof (cases "top_mode cfg")
  case None
  then show ?thesis using assms file_link_sizes[of cfg f a children st a' children' st' r b]
    by (simp add: file_step_def)
next
  case (Some m)
  obtain thr where thr: "next_to_pop (top_heap st) = Inr thr"
    using assms(1) Some by (cases "next_to_pop (top_heap st)") (auto simp: file_step_def)
  show ?thesis
  proof (cases "le (f_attr m f) thr")
    case True
    then show ?thesis using assms Some thr by (simp add: file_step_def)
  next
    case False
    then obtain v tv where v: "f_attr m f = Some v" "top_val a = Assigned tv"
      using assms(1) Some thr
      by (cases "f_attr m f"; cases "top_val a") (auto simp: file_step_def)
    have "file_link cfg f (a\<lparr>top_val := Assigned (max_of (Some v) tv)\<rparr>, children,
            st\<lparr>top_heap := push (top_heap st) v f\<rparr>) = Inr (a', children', st')"
      using assms(1) Some thr False v by (simp add: file_step_def)
    from file_link_sizes[OF this, of r b] assms(2,3) show ?thesis by simp
  qed
qed

lemma files_loop_sizes:
  assumes "files_loop cfg fs (a, children, st) = Inr (a', children', st')"
    "rsize a = Some r" "bsize a = Some b"
  shows "\<exists>new. children' = children @ map Leaf new \<and> set new \<subseteq> set fs
       \<and> rsize a' = Some (r + sum_list (map st_size new))
       \<and> bsize a' = Some (fold max (map st_size new) b)"
  using assms
proof (induction fs arbitrary: a children st r b)
  case Nil
  then show ?case by (intro exI[of _ "[]"]) simp
next
  case (Cons f fs)
  obtain a1 ch1 st1 where s: "file_step cfg f (a, children, st) = Inr (a1, ch1, st1)"
    and l: "files_loop cfg fs (a1, ch1, st1) = Inr (a', children', st')"
    using Cons.prems(1) by (cases "file_step cfg f (a, children, st)") auto
  from file_step_sizes[OF s Cons.prems(2,3)]
  show ?case
  proof
    assume u: "ch1 = children \<and> rsize a1 = Some r \<and> bsize a1 = Some b"
    from Cons.IH[OF l] u obtain new where
      "children' = children @ map Leaf new" "set new \<subseteq> set fs"
      "rsize a' = Some (r + sum_list (map st_size new))"
      "bsize a' = Some (fold max (map st_size new) b)"
      by blast
    then show ?thesis by (intro exI[of _ new]) auto
  next
    assume u: "ch1 = children @ [Leaf f] \<and> rsize a1 = Some (r + st_size f)
           \<and> bsize a1 = Some (max b (st_size f))"
    from Cons.IH[OF l] u obtain new where
      "children' = (children @ [Leaf f]) @ map Leaf new" "set new \<subseteq> set fs"
      "rsize a' = Some (r + st_size f + sum_list (map st_size new))"
      "bsize a' = Some (fold max (map st_size new) (max b (st_size f)))"
      by blast
    then show ?thesis by (intro exI[of _ "f # new"]) (auto simp: max.commute)
  qed
qed

lemma dir_link_children:
  assumes "dir_link cfg d da dchildren (a, children, st) = Inr (a', children', st')"
  shows "(a' = a \<and> children' = children) \<or> children' = children @ [Dir d da dchildren]"
proof -
  have add: "children' = children @ [Dir d da dchildren]"
    if "dir_add d da dchildren (a0, children, st) = Inr (a', children', st')" for a0
    using that by (auto simp: dir_add_def Let_def split: sum.splits if_splits)
  show ?thesis
    using assms add
    by (auto simp: dir_link_def split: if_splits option.splits slot.splits sum.splits)
qed

lemma dirs_loop_children:
  assumes "dirs_loop cfg level ds (a, children, st) = Inr (a', children', st')"
    "\<forall>d \<in> set ds. is_to_dir d"
  shows "\<exists>extra. children' = children @ extra \<and> (\<forall>c \<in> set extra. \<not> is_file_node c)
       \<and> (extra = [] \<longrightarrow> rsize a' = rsize a \<and> bsize a' = bsize a)"
  using assms
proof (induction ds arbitrary: a children st)
  case Nil
  then show ?case by (intro exI[of _ "[]"]) simp
next
  case (Cons d ds)
  have td: "is_to_dir d" and tds: "\<forall>d \<in> set ds. is_to_dir d" using Cons.prems(2) by auto
  show ?case
  proof (cases "is_link d")
    case True
    show ?thesis
    proof (cases "always_show_dirs cfg")
      case A: True
      have "dirs_loop cfg level ds (a\<lparr>dcount := dcount a + 1\<rparr>, children @ [Leaf d], st) = Inr (a', children', st')"
        using Cons.prems(1) True A by (subst (asm) dirs_loop.simps) (simp split: if_splits)
      from Cons.IH[OF this tds] obtain extra where
        "children' = (children @ [Leaf d]) @ extra" "\<forall>c \<in> set extra. \<not> is_file_node c"
        by blast
      then show ?thesis using td by (intro exI[of _ "Leaf d # extra"]) simp
    next
      case A: False
      have "dirs_loop cfg level ds (a, children, st) = Inr (a', children', st')"
        using Cons.prems(1) True A by (subst (asm) dirs_loop.simps) simp
      from Cons.IH[OF this tds] show ?thesis .
    qed
  next
    case False
    note eq = Cons.prems(1)[unfolded dirs_loop_visit[OF False]]
    obtain da dch st1 where v: "visit_dir cfg level d st = Inr (da, dch, st1)"
      using eq by (cases "visit_dir cfg level d st") auto
    obtain a2 ch2 st2 where l: "dir_link cfg d da dch (a, children, st1) = Inr (a2, ch2, st2)"
      using eq v by (cases "dir_link cfg d da dch (a, children, st1)") auto
    have r: "dirs_loop cfg level ds (a2, ch2, st2) = Inr (a', children', st')"
      using eq v l by simp
    from Cons.IH[OF r tds] obtain extra where e:
      "children' = ch2 @ extra" "\<forall>c \<in> set extra. \<not> is_file_node c"
      "extra = [] \<longrightarrow> rsize a' = rsize a2 \<and> bsize a' = bsize a2"
      by blast
    from dir_link_children[OF l] show ?thesis
    proof
      assume "a2 = a \<and> ch2 = children"
      then show ?thesis using e by (intro exI[of _ extra]) simp
    next
      assume "ch2 = children @ [Dir d da dch]"
      then show ?thesis using e by (intro exI[of _ "Dir d da dch # extra"]) simp
    qed
  qed
qed

lemma file_nodes_only:
  assumes "\<forall>c \<in> set (xs @ extra). is_file_node c" "\<forall>c \<in> set extra. \<not> is_file_node c"
  shows "extra = []"
  using assms by (cases extra) auto

text \<open>
  Claim C2, as amended. If \<^verbatim>\<open>_gather\<close> returns on the directory \<open>root\<close> and every surviving
  child is a file, the total size of \<open>root\<close> is its own size plus the sum of the sizes of
  its children, and its best size is the maximum of its own size and the sizes of its
  children; with no surviving child both are its own size.
\<close>

theorem directory_of_files_aggregate:
  assumes "gather cfg root level st = Inr (a, children, st')"
    and "\<forall>c \<in> set children. is_file_node c"
  shows "rsize a = Some (st_size root + sum_list (map node_size children))
       \<and> bsize a = Some (Max (set (st_size root # map node_size children)))
       \<and> (children = [] \<longrightarrow> rsize a = Some (st_size root) \<and> bsize a = Some (st_size root))"
proof (cases "listdir root")
  case (Inl message)
  then show ?thesis
    using assms(1) gather_listing_failed[OF Inl, of cfg level st] entered_fields(5,6)[of cfg root]
    by auto
next
  case (Inr all_nodes)
  define st1 where "st1 = fold (stat_warning cfg) all_nodes (st\<lparr>level_reached := max level (level_reached st)\<rparr>)"
  define f_nodes where "f_nodes = filter (\<lambda>n. \<not> is_to_dir n \<and> fpred cfg n) all_nodes"
  define d_nodes where "d_nodes = filter (\<lambda>n. is_to_dir n \<and> dpred cfg n) all_nodes"
  have g: "gather cfg root level st =
      (case files_loop cfg f_nodes (entered cfg root, [], st1) of
         Inl e \<Rightarrow> Inl e
       | Inr acc \<Rightarrow> dirs_loop cfg level d_nodes acc)"
    unfolding entered_def st1_def f_nodes_def d_nodes_def
    by (subst gather.simps) (simp add: Inr Let_def)
  obtain a1 ch1 st2 where f: "files_loop cfg f_nodes (entered cfg root, [], st1) = Inr (a1, ch1, st2)"
    using assms(1) g by (cases "files_loop cfg f_nodes (entered cfg root, [], st1)") auto
  have d: "dirs_loop cfg level d_nodes (a1, ch1, st2) = Inr (a, children, st')"
    using assms(1) g f by simp
  from files_loop_sizes[OF f entered_fields(6) entered_fields(5)] obtain new where n:
    "ch1 = map Leaf new"
    "rsize a1 = Some (st_size root + sum_list (map st_size new))"
    "bsize a1 = Some (fold max (map st_size new) (st_size root))"
    by auto
  have "\<forall>d \<in> set d_nodes. is_to_dir d" by (simp add: d_nodes_def)
  from dirs_loop_children[OF d this] obtain extra where e:
    "children = ch1 @ extra" "\<forall>c \<in> set extra. \<not> is_file_node c"
    "extra = [] \<longrightarrow> rsize a = rsize a1 \<and> bsize a = bsize a1"
    by blast
  have "extra = []"
    using file_nodes_only[of ch1 extra] assms(2) e(1,2) by simp
  then have c: "children = map Leaf new" "rsize a = rsize a1" "bsize a = bsize a1"
    using e n(1) by simp_all
  have ns: "map node_size children = map st_size new"
    unfolding c(1) by (induction new) simp_all
  have mx: "Max (set (st_size root # map st_size new)) = fold max (map st_size new) (st_size root)"
    by (rule Max.set_eq_fold)
  have 1: "rsize a = Some (st_size root + sum_list (map node_size children))"
    unfolding ns using c(2) n(2) by simp
  have 2: "bsize a = Some (Max (set (st_size root # map node_size children)))"
    unfolding ns mx using c(3) n(3) by simp
  have 3: "rsize a = Some (st_size root) \<and> bsize a = Some (st_size root)" if "children = []"
  proof -
    have "new = []" using that c(1) by simp
    then show ?thesis using c(2,3) n(2,3) by simp
  qed
  show ?thesis using 1 2 3 by blast
qed


lemma gather_one_file_dir:
  "gather default_config one_file_dir 1 (initial_state 1) =
     Inr (\<lparr>fcount = 1, dcount = 0, blines = None, rlines = None,
           bsize = Some 4096, rsize = Some 4196,
           batime = Some 0, bbtime = Some 0, bctime = Some 0, bmtime = Some 0,
           top_val = Unset, ignore = False, has_child_set = True\<rparr>,
          [Leaf (file_entry ''a.txt'' 100 (Some 10) ''0cc175b9c0f1b6a831c399e269772661'')],
          (initial_state 1)\<lparr>level_reached := 1\<rparr>)"
  by (subst gather.simps)
     (simp add: one_file_dir_def dir_entry_def file_entry_def default_config_def initial_state_def
        own_stats_def is_to_dir_def is_dir_def stat_warning_def stat_error_def file_step_def
        file_link_def iadd_def dup_record_def Let_def max_of_def lt_def presence_def)

theorem directory_of_files_aggregate_witness:
  "gather default_config one_file_dir 1 (initial_state 1) =
     Inr (\<lparr>fcount = 1, dcount = 0, blines = None, rlines = None,
           bsize = Some 4096, rsize = Some 4196,
           batime = Some 0, bbtime = Some 0, bctime = Some 0, bmtime = Some 0,
           top_val = Unset, ignore = False, has_child_set = True\<rparr>,
          [Leaf (file_entry ''a.txt'' 100 (Some 10) ''0cc175b9c0f1b6a831c399e269772661'')],
          (initial_state 1)\<lparr>level_reached := 1\<rparr>)
   \<and> is_file_node (Leaf (file_entry ''a.txt'' 100 (Some 10) ''0cc175b9c0f1b6a831c399e269772661''))
   \<and> st_size one_file_dir
        + sum_list (map node_size [Leaf (file_entry ''a.txt'' 100 (Some 10) ''0cc175b9c0f1b6a831c399e269772661'')])
       = 4196
   \<and> Max (set (st_size one_file_dir
        # map node_size [Leaf (file_entry ''a.txt'' 100 (Some 10) ''0cc175b9c0f1b6a831c399e269772661'')]))
       = 4096"
proof -
  have f: "\<forall>c \<in> set [Leaf (file_entry ''a.txt'' 100 (Some 10) ''0cc175b9c0f1b6a831c399e269772661'')].
         is_file_node c"
    by (simp add: file_entry_def is_to_dir_def)
  from directory_of_files_aggregate[OF gather_one_file_dir f] gather_one_file_dir f
  show ?thesis by simp
qed

text \<open>
  Claim C2 fails as stated. A directory of own size 4096 whose one child is a file of 100
  bytes ends with total size 4196 and best size 4096, where the sum and the maximum of
  the sizes of its children are both 100; and a directory with no children ends with
  total and best size 4096, not with absent values.
\<close>

theorem directory_size_includes_own_size:
  "(case gather default_config one_file_dir 1 (initial_state 1) of
      Inr (a, children, st) \<Rightarrow>
        children = [Leaf (file_entry ''a.txt'' 100 (Some 10) ''0cc175b9c0f1b6a831c399e269772661'')]
        \<and> list_all is_file_node children
        \<and> sum_list (map node_size children) = 100 \<and> rsize a = Some 4196
        \<and> Max (set (map node_size children)) = 100 \<and> bsize a = Some 4096
    | Inl e \<Rightarrow> False)
   \<and> (case gather default_config (dir_entry ''empty'' (Inr [])) 1 (initial_state 1) of
      Inr (a, children, st) \<Rightarrow>
        children = [] \<and> rsize a = Some 4096 \<and> bsize a = Some 4096
    | Inl e \<Rightarrow> False)"
  by code_simp


lemma cut_at_dirs_below:
  "list_all (cut_at L lv) ns \<Longrightarrow> int k = L - lv \<Longrightarrow>
   list_all (\<lambda>n. \<exists>d. n = Dir d (truncated d) []) (dirs_below k ns)"
proof (induction k arbitrary: lv ns)
  case 0
  have "\<exists>d. n = Dir d (truncated d) []" if "n \<in> set ns" "is_dir_node n" for n
  proof -
    have "cut_at L lv n" using "0.prems"(1) that(1) by (simp add: list_all_iff)
    then show ?thesis using that(2) "0.prems"(2) by (cases n) auto
  qed
  then show ?case by (auto simp: list_all_iff)
next
  case (Suc k)
  have "list_all (\<lambda>n. \<exists>d. n = Dir d (truncated d) [])
          (case n of Leaf e \<Rightarrow> [] | Dir e a children \<Rightarrow> dirs_below k children)"
    if "n \<in> set ns" for n
  proof (cases n)
    case (Leaf e)
    then show ?thesis by simp
  next
    case (Dir e a children)
    have "cut_at L lv n" using Suc.prems(1) that by (simp add: list_all_iff)
    then have "list_all (cut_at L (lv + 1)) children"
      using Dir Suc.prems(2) by simp
    from Suc.IH[OF this] Suc.prems(2) show ?thesis using Dir by simp
  qed
  then show ?case by (auto simp: list_all_iff)
qed

lemma file_step_children:
  assumes "file_step cfg f (a, children, st) = Inr (a', children', st')"
  shows "children' = children \<or> children' = children @ [Leaf f]"
proof -
  have l: "children' = children @ [Leaf f]"
    if "file_link cfg f (a0, children, st0) = Inr (a', children', st')" for a0 st0
    using that by (auto simp: file_link_def Let_def split: sum.splits if_splits)
  show ?thesis
  proof (cases "top_mode cfg")
    case None
    then show ?thesis using assms l by (simp add: file_step_def)
  next
    case (Some m)
    obtain thr where thr: "next_to_pop (top_heap st) = Inr thr"
      using assms Some by (cases "next_to_pop (top_heap st)") (auto simp: file_step_def)
    show ?thesis
    proof (cases "le (f_attr m f) thr")
      case True
      then show ?thesis using assms Some thr by (simp add: file_step_def)
    next
      case False
      then obtain v tv where v: "f_attr m f = Some v" "top_val a = Assigned tv"
        using assms Some thr
        by (cases "f_attr m f"; cases "top_val a") (auto simp: file_step_def)
      have "file_link cfg f (a\<lparr>top_val := Assigned (max_of (Some v) tv)\<rparr>, children,
              st\<lparr>top_heap := push (top_heap st) v f\<rparr>) = Inr (a', children', st')"
        using assms Some thr False v by (simp add: file_step_def)
      from l[OF this] show ?thesis by simp
    qed
  qed
qed

lemma files_loop_cut:
  "files_loop cfg fs (a, children, st) = Inr (a', children', st') \<Longrightarrow>
   list_all (cut_at L lv) children \<Longrightarrow> list_all (cut_at L lv) children'"
proof (induction fs arbitrary: a children st)
  case Nil
  then show ?case by simp
next
  case (Cons f fs)
  obtain a1 ch1 st1 where s: "file_step cfg f (a, children, st) = Inr (a1, ch1, st1)"
    and l: "files_loop cfg fs (a1, ch1, st1) = Inr (a', children', st')"
    using Cons.prems(1) by (cases "file_step cfg f (a, children, st)") auto
  have "list_all (cut_at L lv) ch1"
    using file_step_children[OF s] Cons.prems(2) by auto
  from Cons.IH[OF l this] show ?case .
qed

lemma walk_cut:
  "gather cfg root level st = Inr res \<Longrightarrow> list_all (cut_at (access_level cfg) level) (fst (snd res))"
  "dirs_loop cfg level ds acc = Inr res \<Longrightarrow>
     list_all (cut_at (access_level cfg) level) (fst (snd acc)) \<Longrightarrow>
     list_all (cut_at (access_level cfg) level) (fst (snd res))"
proof (induction cfg root level st and cfg level ds acc arbitrary: res and res
    rule: gather_dirs_loop.induct)
  case (1 cfg root level st)
  define st1 where "st1 = st\<lparr>level_reached := max level (level_reached st)\<rparr>"
  show ?case
  proof (cases "listdir root")
    case (Inl m)
    have "res = (entered cfg root, [], warning_print cfg m st1)"
      using "1.prems" gather_listing_failed[OF Inl, of cfg level st] by (simp add: st1_def)
    then show ?thesis by simp
  next
    case (Inr b)
    define f_nodes where "f_nodes = filter (\<lambda>n. \<not> is_to_dir n \<and> fpred cfg n) b"
    define d_nodes where "d_nodes = filter (\<lambda>n. is_to_dir n \<and> dpred cfg n) b"
    define a1 where "a1 = (case top_mode cfg of None \<Rightarrow> own_stats root
        | Some m \<Rightarrow> (own_stats root)\<lparr>top_val := Assigned (b_attr m (own_stats root))\<rparr>)"
    define sw where "sw = fold (stat_warning cfg) b st1"
    have g: "gather cfg root level st =
      (case files_loop cfg f_nodes (a1, [], sw) of
         Inl e \<Rightarrow> Inl e
       | Inr acc \<Rightarrow> dirs_loop cfg level d_nodes acc)"
      unfolding a1_def st1_def sw_def f_nodes_def d_nodes_def
      by (subst gather.simps) (simp add: Inr Let_def)
    obtain a2 ch2 st2 where f: "files_loop cfg f_nodes (a1, [], sw) = Inr (a2, ch2, st2)"
      using "1.prems" g by (cases "files_loop cfg f_nodes (a1, [], sw)") auto
    have d: "dirs_loop cfg level d_nodes (a2, ch2, st2) = Inr res"
      using "1.prems" g f by simp
    have c2: "list_all (cut_at (access_level cfg) level) (fst (snd (a2, ch2, st2)))"
      using files_loop_cut[OF f, of "access_level cfg" level] by simp
    show ?thesis
      by (rule "1.IH"[OF st1_def refl a1_def Inr sw_def f_nodes_def d_nodes_def f d c2])
  qed
next
  case (2 cfg level acc)
  then show ?case by simp
next
  case (3 cfg level d ds acc)
  obtain a0 ch0 st0 where acc: "acc = (a0, ch0, st0)" by (cases acc)
  have c0: "list_all (cut_at (access_level cfg) level) ch0"
    using "3.prems"(2) by (simp add: acc)
  show ?case
  proof (cases "is_link d")
    case True
    show ?thesis
    proof (cases "always_show_dirs cfg")
      case A: True
      have H: "has_child_set a0"
        using "3.prems"(1) True A unfolding acc
        by (subst (asm) dirs_loop.simps) (simp split: if_splits)
      have e: "dirs_loop cfg level ds (a0\<lparr>dcount := dcount a0 + 1\<rparr>, ch0 @ [Leaf d], st0) = Inr res"
        using "3.prems"(1) True A unfolding acc
        by (subst (asm) dirs_loop.simps) (simp split: if_splits)
      have c: "list_all (cut_at (access_level cfg) level)
                 (fst (snd (a0\<lparr>dcount := dcount a0 + 1\<rparr>, ch0 @ [Leaf d], st0)))"
        using c0 by simp
      show ?thesis
        by (rule "3.IH"(1)[OF acc[symmetric] refl True A H e c])
    next
      case A: False
      have e: "dirs_loop cfg level ds acc = Inr res"
        using "3.prems"(1) True A unfolding acc by (subst (asm) dirs_loop.simps) simp
      show ?thesis
        by (rule "3.IH"(2)[OF acc[symmetric] refl True A e "3.prems"(2)])
    qed
  next
    case False
    note eq = "3.prems"(1)[unfolded acc dirs_loop_visit[OF False]]
    obtain da dch st1 where v: "visit_dir cfg level d st0 = Inr (da, dch, st1)"
      using eq by (cases "visit_dir cfg level d st0") auto
    obtain a2 ch2 st2 where l: "dir_link cfg d da dch (a0, ch0, st1) = Inr (a2, ch2, st2)"
      using eq v by (cases "dir_link cfg d da dch (a0, ch0, st1)") auto
    have r: "dirs_loop cfg level ds (a2, ch2, st2) = Inr res"
      using eq v l by simp
    have cd: "cut_at (access_level cfg) level (Dir d da dch)"
    proof (cases "level < access_level cfg")
      case L: True
      then have "gather cfg d (level + 1) st0 = Inr (da, dch, st1)"
        using v by (simp add: visit_dir_def)
      from "3.IH"(3)[OF acc[symmetric] refl False L this] show ?thesis using L by simp
    next
      case L: False
      then have "da = truncated d \<and> dch = []" using v by (simp add: visit_dir_def)
      then show ?thesis using L by simp
    qed
    have c2: "list_all (cut_at (access_level cfg) level) (fst (snd (a2, ch2, st2)))"
      using dir_link_children[OF l] c0 cd by auto
    have v': "(if level < access_level cfg then gather cfg d (level + 1) st0
               else Inr (truncated d, [], st0)) = Inr (da, dch, st1)"
      using v by (simp add: visit_dir_def)
    show ?thesis
      by (rule "3.IH"(4)[OF acc[symmetric] refl False v' refl refl l r c2])
  qed
qed

lemma walk_truncates_at_depth:
  assumes "gather cfg root 1 st = Inr (a, children, st')" "1 \<le> access_level cfg"
  shows "list_all (\<lambda>n. \<exists>d. n = Dir d (truncated d) [])
           (dirs_below (nat (access_level cfg) - 1) children)"
proof -
  have "list_all (cut_at (access_level cfg) 1) children"
    using walk_cut(1)[OF assms(1)] by simp
  moreover have "int (nat (access_level cfg) - 1) = access_level cfg - 1"
    using assms(2) by simp
  ultimately show ?thesis by (rule cut_at_dirs_below)
qed


text \<open>
  Claim C7. A subdirectory \<open>d\<close> met at level \<open>level = access_level\<close>, that is
  \<open>access_level\<close> steps below the root, is not listed: its visit returns without touching
  the state and whatever \<^verbatim>\<open>os.listdir\<close> would have returned, with no children, with
  \<^verbatim>\<open>ignore\<close> set, with zero descendant counts, with best and total size and the four
  timestamps equal to its own, and with best and total lines absent; the loop of the
  parent then links or prunes it with these aggregates. And in the tree that a whole walk
  (started at level 1, with an access level of at least one) returns, every gathered
  directory that lies \<open>access_level\<close> steps below the root has exactly these aggregates and
  no children.
\<close>

theorem directory_at_access_depth_is_truncated:
  assumes "level = access_level cfg"
  shows "visit_dir cfg level d st = Inr (truncated d, [], st)
       \<and> visit_dir cfg level (set_listdir d listing) st = Inr (truncated d, [], st)
       \<and> ignore (truncated d)
       \<and> fcount (truncated d) = 0 \<and> dcount (truncated d) = 0
       \<and> bsize (truncated d) = Some (st_size d) \<and> rsize (truncated d) = Some (st_size d)
       \<and> batime (truncated d) = Some (st_atime d) \<and> bbtime (truncated d) = Some (st_btime d)
       \<and> bctime (truncated d) = Some (st_ctime d) \<and> bmtime (truncated d) = Some (st_mtime d)
       \<and> blines (truncated d) = None \<and> rlines (truncated d) = None
       \<and> (\<not> is_link d \<longrightarrow>
            dirs_loop cfg level (d # ds) (a, children, st) =
              (case dir_link cfg d (truncated d) [] (a, children, st) of
                 Inl e \<Rightarrow> Inl e
               | Inr acc' \<Rightarrow> dirs_loop cfg level ds acc'))
       \<and> (gather cfg root 1 st0 = Inr (a0, children0, st0') \<and> 1 \<le> access_level cfg \<longrightarrow>
            list_all (\<lambda>n. \<exists>e. n = Dir e (truncated e) [])
              (dirs_below (nat (access_level cfg) - 1) children0))"
proof -
  have v: "visit_dir cfg level d st = Inr (truncated d, [], st)" for d
    using assms by (simp add: visit_dir_def)
  have t: "truncated (set_listdir d listing) = truncated d"
    by (cases d) (simp add: truncated_def own_stats_def is_dir_def)
  have l: "dirs_loop cfg level (d # ds) (a, children, st) =
              (case dir_link cfg d (truncated d) [] (a, children, st) of
                 Inl e \<Rightarrow> Inl e
               | Inr acc' \<Rightarrow> dirs_loop cfg level ds acc')" if "\<not> is_link d"
    by (simp add: dirs_loop_visit[OF that] v)
  have w: "list_all (\<lambda>n. \<exists>e. n = Dir e (truncated e) [])
              (dirs_below (nat (access_level cfg) - 1) children0)"
    if "gather cfg root 1 st0 = Inr (a0, children0, st0') \<and> 1 \<le> access_level cfg"
    using that walk_truncates_at_depth[of cfg root st0 a0 children0 st0'] by blast
  have f: "ignore (truncated d)
       \<and> fcount (truncated d) = 0 \<and> dcount (truncated d) = 0
       \<and> bsize (truncated d) = Some (st_size d) \<and> rsize (truncated d) = Some (st_size d)
       \<and> batime (truncated d) = Some (st_atime d) \<and> bbtime (truncated d) = Some (st_btime d)
       \<and> bctime (truncated d) = Some (st_ctime d) \<and> bmtime (truncated d) = Some (st_mtime d)
       \<and> blines (truncated d) = None \<and> rlines (truncated d) = None"
    by (simp add: truncated_def own_stats_def)
  have v2: "visit_dir cfg level (set_listdir d listing) st = Inr (truncated d, [], st)"
    using v[of "set_listdir d listing"] t by simp
  show ?thesis
    using v[of d] v2 f l w by blast
qed

theorem directory_at_access_depth_is_truncated_witness:
  "(1::int) = access_level (default_config\<lparr>access_level := 1\<rparr>)
   \<and> visit_dir (default_config\<lparr>access_level := 1\<rparr>) 1 sub_dir (initial_state 1)
       = Inr (truncated sub_dir, [], initial_state 1)
   \<and> ignore (truncated sub_dir) \<and> fcount (truncated sub_dir) = 0 \<and> dcount (truncated sub_dir) = 0
   \<and> bsize (truncated sub_dir) = Some 4096 \<and> rsize (truncated sub_dir) = Some 4096
   \<and> blines (truncated sub_dir) = None \<and> rlines (truncated sub_dir) = None
   \<and> \<not> is_link sub_dir
   \<and> (case gather (default_config\<lparr>access_level := 1\<rparr>) (dir_entry ''root'' (Inr [sub_dir])) 1
              (initial_state 1) of
         Inl e \<Rightarrow> False
       | Inr (a, ch, st) \<Rightarrow>
           dirs_below 0 ch = [Dir sub_dir (truncated sub_dir) []]
           \<and> list_all (\<lambda>n. n = Dir sub_dir (truncated sub_dir) []) (dirs_below 0 ch))"
proof -
  let ?cfg = "default_config\<lparr>access_level := 1\<rparr>"
  have "case gather ?cfg (dir_entry ''root'' (Inr [sub_dir])) 1 (initial_state 1) of
         Inl e \<Rightarrow> False
       | Inr (a, ch, st) \<Rightarrow> dirs_below 0 ch = [Dir sub_dir (truncated sub_dir) []]"
    by code_simp
  from case_InrE[OF this] obtain a0 ch0 st0 where
    g: "gather ?cfg (dir_entry ''root'' (Inr [sub_dir])) 1 (initial_state 1) = Inr (a0, ch0, st0)"
    and b: "dirs_below 0 ch0 = [Dir sub_dir (truncated sub_dir) []]"
    by blast
  have al: "access_level ?cfg = 1" by (simp add: default_config_def)
  note T = directory_at_access_depth_is_truncated[of 1 ?cfg sub_dir "initial_state 1" "Inr []" "[]"
      "own_stats (dir_entry ''root'' (Inr []))" "[]" "dir_entry ''root'' (Inr [sub_dir])"
      "initial_state 1" a0 ch0 st0]
  have "list_all (\<lambda>n. \<exists>e. n = Dir e (truncated e) []) (dirs_below (nat (access_level ?cfg) - 1) ch0)"
    using T g al by simp
  then have w: "list_all (\<lambda>n. n = Dir sub_dir (truncated sub_dir) []) (dirs_below 0 ch0)"
    using b by simp
  have s: "\<not> is_link sub_dir"
    by (simp add: sub_dir_def dir_entry_def is_link_def)
  have f: "(1::int) = access_level ?cfg
   \<and> visit_dir ?cfg 1 sub_dir (initial_state 1) = Inr (truncated sub_dir, [], initial_state 1)
   \<and> ignore (truncated sub_dir) \<and> fcount (truncated sub_dir) = 0 \<and> dcount (truncated sub_dir) = 0
   \<and> bsize (truncated sub_dir) = Some 4096 \<and> rsize (truncated sub_dir) = Some 4096
   \<and> blines (truncated sub_dir) = None \<and> rlines (truncated sub_dir) = None"
    using T al by (simp add: sub_dir_def dir_entry_def)
  show ?thesis
    using f s g b w by simp
qed

text \<open>
  A remark on top-mode. The branch that does not enter a directory sets no \<^verbatim>\<open>top_val\<close>, so
  when such a directory survives the post-filter and the empty-directory test in top-mode,
  the gate \<^verbatim>\<open>lt(d.top_val, ...)\<close> raises \<^verbatim>\<open>AttributeError\<close> and the walk ends there.
\<close>

lemma top_mode_truncated_raises:
  "gather (top_lines_config\<lparr>access_level := 1\<rparr>) (dir_entry ''root'' (Inr [sub_dir])) 1 (initial_state 1)
     = Inl AttributeError"
proof -
  have "case gather (top_lines_config\<lparr>access_level := 1\<rparr>) (dir_entry ''root'' (Inr [sub_dir])) 1
              (initial_state 1) of
          Inl e \<Rightarrow> e = AttributeError
        | Inr r \<Rightarrow> False"
    by code_simp
  then show ?thesis
    by (cases "gather (top_lines_config\<lparr>access_level := 1\<rparr>) (dir_entry ''root'' (Inr [sub_dir])) 1
              (initial_state 1)") simp_all
qed

text \<open>
  A remark on the root. \<^verbatim>\<open>Tree.__init__\<close> accepts a root that is a symbolic link to a
  directory; \<^verbatim>\<open>Node.__init__\<close> gives it no set of children, so the walk raises
  \<^verbatim>\<open>AttributeError\<close> at the first entry it links.
\<close>

lemma link_root_raises:
  "gather default_config link_root 1 (initial_state 1) = Inl AttributeError"
proof -
  have "case gather default_config link_root 1 (initial_state 1) of
          Inl e \<Rightarrow> e = AttributeError
        | Inr r \<Rightarrow> False"
    by code_simp
  then show ?thesis
    by (cases "gather default_config link_root 1 (initial_state 1)") simp_all
qed

section \<open>Duplicate grouping\<close>









lemma dup_record_sentinel:
  "dup_nonempty cfg \<Longrightarrow>
   dup_map (dup_record cfg f st) (Some EMPTY_FILE_MD5_HASH) = dup_map st (Some EMPTY_FILE_MD5_HASH)"
  by (auto simp: dup_record_def truthy_def Let_def split: option.splits)






lemma fold_dup_sentinel:
  "dup_nonempty cfg \<Longrightarrow>
   dup_map (fold (dup_record cfg) fs st) (Some EMPTY_FILE_MD5_HASH) = dup_map st (Some EMPTY_FILE_MD5_HASH)"
  by (induction fs arbitrary: st) (simp_all add: dup_record_sentinel)






lemma dup_inv_top_heap [simp]: "dup_inv (st\<lparr>top_heap := h\<rparr>) = dup_inv st"
  by (simp add: dup_inv_def)

lemma dup_inv_level [simp]: "dup_inv (st\<lparr>level_reached := l\<rparr>) = dup_inv st"
  by (simp add: dup_inv_def)

lemma dup_inv_warning [simp]: "dup_inv (warning_print cfg m st) = dup_inv st"
  by (simp add: dup_inv_def warning_print_def)

lemma dup_map_warning [simp]: "dup_map (warning_print cfg m st) = dup_map st"
  by (simp add: warning_print_def)










lemma same_dup_refl [simp]: "same_dup s s"
  by (simp add: same_dup_def)




















end
